theory Spec2Isabelle
  imports Main "HOL-Library.Word"
begin

unbundle bit_operations_syntax

section \<open>Data model\<close>

text \<open>
  The package works on Go byte slices and Go strings. A byte is an 8-bit word, a byte
  slice is a list of bytes. A Go string is a sequence of bytes as well; it is modelled
  as a HOL \<open>string\<close>, whose characters are bytes, and the conversions \<open>[]byte(s)\<close> and
  \<open>string(b)\<close> are written out.
\<close>

type_synonym byte = "8 word"
type_synonym bytes = "byte list"

definition byte_of_char :: "char \<Rightarrow> byte" where
  "byte_of_char c = of_nat (of_char c)"

definition char_of_byte :: "byte \<Rightarrow> char" where
  "char_of_byte b = char_of (unat b)"

definition bytes_of_string :: "string \<Rightarrow> bytes" where
  "bytes_of_string s = map byte_of_char s"

definition string_of_bytes :: "bytes \<Rightarrow> string" where
  "string_of_bytes b = map char_of_byte b"

text \<open>
  Every error the package returns is built by \<open>fmt.Errorf\<close> from a fixed message, some
  wrapping an inner error with \<open>%w\<close>. One constructor stands for each message; the
  errors of the standard library that can be wrapped (\<open>aes.KeySizeError\<close>,
  \<open>hex.ErrLength\<close>, \<open>hex.InvalidByteError\<close>) are constructors too. \<open>RuntimePanic\<close> is a
  Go run-time panic (slice bounds, division by zero, negative length).
\<close>

datatype error =
    ErrPlaintextEmpty                \<comment> \<open>"plaintext cannot be empty"\<close>
  | ErrKeyEmpty                      \<comment> \<open>"key cannot be empty"\<close>
  | ErrCiphertextEmpty               \<comment> \<open>"ciphertext cannot be empty"\<close>
  | ErrCiphertextLength              \<comment> \<open>"ciphertext length must be multiple of block size"\<close>
  | ErrCreateCipher error            \<comment> \<open>"failed to create cipher: %w"\<close>
  | ErrRemovePadding error           \<comment> \<open>"failed to remove padding: %w"\<close>
  | ErrInvalidHex error              \<comment> \<open>"invalid hex string: %w"\<close>
  | ErrDataEmpty                     \<comment> \<open>"data is empty"\<close>
  | ErrInvalidPadding                \<comment> \<open>"invalid padding"\<close>
  | KeySizeError nat                 \<comment> \<open>crypto/aes: invalid key size\<close>
  | HexErrLength                     \<comment> \<open>encoding/hex: odd length hex string\<close>
  | HexInvalidByteError byte         \<comment> \<open>encoding/hex: invalid byte\<close>
  | RuntimePanic

text \<open>The error kinds of the specification, and the kind each error of the code falls under.\<close>

datatype error_kind = InvalidInput | InvalidPadding | InvalidEncoding | CipherConstructionFailure

fun kind :: "error \<Rightarrow> error_kind option" where
  "kind ErrPlaintextEmpty = Some InvalidInput"
| "kind ErrKeyEmpty = Some InvalidInput"
| "kind ErrCiphertextEmpty = Some InvalidInput"
| "kind ErrCiphertextLength = Some InvalidInput"
| "kind (ErrCreateCipher e) = Some CipherConstructionFailure"
| "kind (ErrRemovePadding e) = Some InvalidPadding"
| "kind (ErrInvalidHex e) = Some InvalidEncoding"
| "kind ErrDataEmpty = Some InvalidPadding"
| "kind ErrInvalidPadding = Some InvalidPadding"
| "kind (KeySizeError n) = Some CipherConstructionFailure"
| "kind HexErrLength = Some InvalidEncoding"
| "kind (HexInvalidByteError b) = Some InvalidEncoding"
| "kind RuntimePanic = None"

definition AESKeyLen :: nat where
  "AESKeyLen = 128"

definition BlockSize :: nat where
  "BlockSize = 16"

section \<open>Key folding\<close>

text \<open>
  \<open>aesKey\<close>: a key of exactly 16 bytes is returned as it is. Otherwise \<open>k\<close> is a fresh
  buffer of 16 zero bytes, \<open>copy(k, key)\<close> overwrites its first \<open>min 16 (len key)\<close> bytes,
  and the two nested loops XOR the remaining key bytes into it. The inner loop advances
  \<open>j\<close> and \<open>i\<close> together and hands the new \<open>i\<close> back to the outer loop.
\<close>

definition keyLen :: nat where
  "keyLen = AESKeyLen div 8"

definition copy_into :: "bytes \<Rightarrow> bytes \<Rightarrow> bytes" where
  "copy_into dst src = take (length dst) src @ drop (length src) dst"

function aesKey_inner :: "bytes \<Rightarrow> bytes \<Rightarrow> nat \<Rightarrow> nat \<Rightarrow> bytes \<times> nat" where
  "aesKey_inner key k j i =
     (if j < keyLen \<and> i < length key
      then aesKey_inner key (k[j := (k ! j) XOR (key ! i)]) (j + 1) (i + 1)
      else (k, i))"
  by pat_completeness auto
termination
  by (relation "measure (\<lambda>(key, k, j, i). length key - i)") auto

declare aesKey_inner.simps [simp del]

lemma aesKey_inner_mono: "i \<le> snd (aesKey_inner key k j i)"
proof (induction key k j i rule: aesKey_inner.induct)
  case (1 key k j i)
  show ?case
  proof (cases "j < keyLen \<and> i < length key")
    case True
    have "aesKey_inner key k j i = aesKey_inner key (k[j := (k ! j) XOR (key ! i)]) (j + 1) (i + 1)"
      using True by (subst aesKey_inner.simps) simp
    with "1.IH" [OF True] show ?thesis by simp
  next
    case False
    have "aesKey_inner key k j i = (k, i)"
      by (subst aesKey_inner.simps) (simp only: False if_False)
    then show ?thesis by simp
  qed
qed

lemma aesKey_inner_advances:
  assumes "i < length key"
  shows "i < snd (aesKey_inner key k 0 i)"
proof -
  from assms
  have "aesKey_inner key k 0 i = aesKey_inner key (k[0 := (k ! 0) XOR (key ! i)]) (0 + 1) (i + 1)"
    by (subst aesKey_inner.simps) (simp add: keyLen_def AESKeyLen_def)
  with aesKey_inner_mono [of "i + 1" key "k[0 := (k ! 0) XOR (key ! i)]" "0 + 1"] show ?thesis
    by simp
qed

function aesKey_outer :: "bytes \<Rightarrow> bytes \<Rightarrow> nat \<Rightarrow> bytes" where
  "aesKey_outer key k i =
     (if i < length key
      then (case aesKey_inner key k 0 i of (k', i') \<Rightarrow> aesKey_outer key k' i')
      else k)"
  by pat_completeness auto
termination
  apply (relation "measure (\<lambda>(key, k, i). length key - i)")
   apply simp
  subgoal for key k i x y
    using aesKey_inner_advances [of i key k] by (cases "aesKey_inner key k 0 i") auto
  done

declare aesKey_outer.simps [simp del]

definition aesKey :: "bytes \<Rightarrow> bytes" where
  "aesKey key =
     (if length key = keyLen then key
      else aesKey_outer key (copy_into (replicate keyLen 0) key) keyLen)"

section \<open>PKCS#7 padding\<close>

text \<open>
  \<open>pkcs7Pad\<close> takes the block size as a Go \<open>int\<close>. The remainder \<open>len(data) % blockSize\<close>
  panics when \<open>blockSize\<close> is 0; Go's remainder has the sign of the dividend, so for the
  non-negative \<open>len(data)\<close> it is \<open>len(data) mod |blockSize|\<close>. \<open>make\<close> panics on a negative
  length. \<open>byte(padding)\<close> keeps the low 8 bits.
\<close>

definition pkcs7Pad :: "bytes \<Rightarrow> int \<Rightarrow> error + bytes" where
  "pkcs7Pad data blockSize =
     (if blockSize = 0 then Inl RuntimePanic
      else let padding = blockSize - int (length data) mod \<bar>blockSize\<bar> in
        if padding < 0 then Inl RuntimePanic
        else Inr (data @ replicate (nat padding) (word_of_int padding)))"

text \<open>
  The verification loop of \<open>pkcs7Unpad\<close>, from index \<open>i\<close> on: \<open>False\<close> is the early
  return with "invalid padding".
\<close>

function unpad_verify :: "bytes \<Rightarrow> nat \<Rightarrow> nat \<Rightarrow> bool" where
  "unpad_verify data padding i =
     (if i < length data
      then (if data ! i \<noteq> of_nat padding then False else unpad_verify data padding (i + 1))
      else True)"
  by pat_completeness auto
termination
  by (relation "measure (\<lambda>(data, padding, i). length data - i)") auto

declare unpad_verify.simps [simp del]

definition pkcs7Unpad :: "bytes \<Rightarrow> error + bytes" where
  "pkcs7Unpad data =
     (if length data = 0 then Inl ErrDataEmpty
      else let padding = unat (data ! (length data - 1)) in
        if padding = 0 \<or> padding > length data then Inl ErrInvalidPadding
        else if unpad_verify data padding (length data - padding)
             then Inr (take (length data - padding) data)
             else Inl ErrInvalidPadding)"

section \<open>The block cipher\<close>

text \<open>
  Modelled from the specification of the external library: the package calls Go's
  standard \<open>crypto/aes\<close> (\<open>aes.NewCipher\<close>, \<open>Block.Encrypt\<close>, \<open>Block.Decrypt\<close>), which is
  not part of this repository. It implements the AES block cipher of FIPS-197, and the
  definitions below follow that standard: the state is the 16 input bytes in order, so
  that byte \<open>r + 4 * c\<close> is row \<open>r\<close> of column \<open>c\<close>; a key-schedule word is a list of 4 bytes.
\<close>

definition sbox_table :: "byte list" where
  "sbox_table = [
     0x63, 0x7c, 0x77, 0x7b, 0xf2, 0x6b, 0x6f, 0xc5, 0x30, 0x01, 0x67, 0x2b, 0xfe, 0xd7, 0xab, 0x76,
     0xca, 0x82, 0xc9, 0x7d, 0xfa, 0x59, 0x47, 0xf0, 0xad, 0xd4, 0xa2, 0xaf, 0x9c, 0xa4, 0x72, 0xc0,
     0xb7, 0xfd, 0x93, 0x26, 0x36, 0x3f, 0xf7, 0xcc, 0x34, 0xa5, 0xe5, 0xf1, 0x71, 0xd8, 0x31, 0x15,
     0x04, 0xc7, 0x23, 0xc3, 0x18, 0x96, 0x05, 0x9a, 0x07, 0x12, 0x80, 0xe2, 0xeb, 0x27, 0xb2, 0x75,
     0x09, 0x83, 0x2c, 0x1a, 0x1b, 0x6e, 0x5a, 0xa0, 0x52, 0x3b, 0xd6, 0xb3, 0x29, 0xe3, 0x2f, 0x84,
     0x53, 0xd1, 0x00, 0xed, 0x20, 0xfc, 0xb1, 0x5b, 0x6a, 0xcb, 0xbe, 0x39, 0x4a, 0x4c, 0x58, 0xcf,
     0xd0, 0xef, 0xaa, 0xfb, 0x43, 0x4d, 0x33, 0x85, 0x45, 0xf9, 0x02, 0x7f, 0x50, 0x3c, 0x9f, 0xa8,
     0x51, 0xa3, 0x40, 0x8f, 0x92, 0x9d, 0x38, 0xf5, 0xbc, 0xb6, 0xda, 0x21, 0x10, 0xff, 0xf3, 0xd2,
     0xcd, 0x0c, 0x13, 0xec, 0x5f, 0x97, 0x44, 0x17, 0xc4, 0xa7, 0x7e, 0x3d, 0x64, 0x5d, 0x19, 0x73,
     0x60, 0x81, 0x4f, 0xdc, 0x22, 0x2a, 0x90, 0x88, 0x46, 0xee, 0xb8, 0x14, 0xde, 0x5e, 0x0b, 0xdb,
     0xe0, 0x32, 0x3a, 0x0a, 0x49, 0x06, 0x24, 0x5c, 0xc2, 0xd3, 0xac, 0x62, 0x91, 0x95, 0xe4, 0x79,
     0xe7, 0xc8, 0x37, 0x6d, 0x8d, 0xd5, 0x4e, 0xa9, 0x6c, 0x56, 0xf4, 0xea, 0x65, 0x7a, 0xae, 0x08,
     0xba, 0x78, 0x25, 0x2e, 0x1c, 0xa6, 0xb4, 0xc6, 0xe8, 0xdd, 0x74, 0x1f, 0x4b, 0xbd, 0x8b, 0x8a,
     0x70, 0x3e, 0xb5, 0x66, 0x48, 0x03, 0xf6, 0x0e, 0x61, 0x35, 0x57, 0xb9, 0x86, 0xc1, 0x1d, 0x9e,
     0xe1, 0xf8, 0x98, 0x11, 0x69, 0xd9, 0x8e, 0x94, 0x9b, 0x1e, 0x87, 0xe9, 0xce, 0x55, 0x28, 0xdf,
     0x8c, 0xa1, 0x89, 0x0d, 0xbf, 0xe6, 0x42, 0x68, 0x41, 0x99, 0x2d, 0x0f, 0xb0, 0x54, 0xbb, 0x16]"

definition inv_sbox_table :: "byte list" where
  "inv_sbox_table = [
     0x52, 0x09, 0x6a, 0xd5, 0x30, 0x36, 0xa5, 0x38, 0xbf, 0x40, 0xa3, 0x9e, 0x81, 0xf3, 0xd7, 0xfb,
     0x7c, 0xe3, 0x39, 0x82, 0x9b, 0x2f, 0xff, 0x87, 0x34, 0x8e, 0x43, 0x44, 0xc4, 0xde, 0xe9, 0xcb,
     0x54, 0x7b, 0x94, 0x32, 0xa6, 0xc2, 0x23, 0x3d, 0xee, 0x4c, 0x95, 0x0b, 0x42, 0xfa, 0xc3, 0x4e,
     0x08, 0x2e, 0xa1, 0x66, 0x28, 0xd9, 0x24, 0xb2, 0x76, 0x5b, 0xa2, 0x49, 0x6d, 0x8b, 0xd1, 0x25,
     0x72, 0xf8, 0xf6, 0x64, 0x86, 0x68, 0x98, 0x16, 0xd4, 0xa4, 0x5c, 0xcc, 0x5d, 0x65, 0xb6, 0x92,
     0x6c, 0x70, 0x48, 0x50, 0xfd, 0xed, 0xb9, 0xda, 0x5e, 0x15, 0x46, 0x57, 0xa7, 0x8d, 0x9d, 0x84,
     0x90, 0xd8, 0xab, 0x00, 0x8c, 0xbc, 0xd3, 0x0a, 0xf7, 0xe4, 0x58, 0x05, 0xb8, 0xb3, 0x45, 0x06,
     0xd0, 0x2c, 0x1e, 0x8f, 0xca, 0x3f, 0x0f, 0x02, 0xc1, 0xaf, 0xbd, 0x03, 0x01, 0x13, 0x8a, 0x6b,
     0x3a, 0x91, 0x11, 0x41, 0x4f, 0x67, 0xdc, 0xea, 0x97, 0xf2, 0xcf, 0xce, 0xf0, 0xb4, 0xe6, 0x73,
     0x96, 0xac, 0x74, 0x22, 0xe7, 0xad, 0x35, 0x85, 0xe2, 0xf9, 0x37, 0xe8, 0x1c, 0x75, 0xdf, 0x6e,
     0x47, 0xf1, 0x1a, 0x71, 0x1d, 0x29, 0xc5, 0x89, 0x6f, 0xb7, 0x62, 0x0e, 0xaa, 0x18, 0xbe, 0x1b,
     0xfc, 0x56, 0x3e, 0x4b, 0xc6, 0xd2, 0x79, 0x20, 0x9a, 0xdb, 0xc0, 0xfe, 0x78, 0xcd, 0x5a, 0xf4,
     0x1f, 0xdd, 0xa8, 0x33, 0x88, 0x07, 0xc7, 0x31, 0xb1, 0x12, 0x10, 0x59, 0x27, 0x80, 0xec, 0x5f,
     0x60, 0x51, 0x7f, 0xa9, 0x19, 0xb5, 0x4a, 0x0d, 0x2d, 0xe5, 0x7a, 0x9f, 0x93, 0xc9, 0x9c, 0xef,
     0xa0, 0xe0, 0x3b, 0x4d, 0xae, 0x2a, 0xf5, 0xb0, 0xc8, 0xeb, 0xbb, 0x3c, 0x83, 0x53, 0x99, 0x61,
     0x17, 0x2b, 0x04, 0x7e, 0xba, 0x77, 0xd6, 0x26, 0xe1, 0x69, 0x14, 0x63, 0x55, 0x21, 0x0c, 0x7d]"

definition SubByte :: "byte \<Rightarrow> byte" where
  "SubByte b = sbox_table ! unat b"

definition InvSubByte :: "byte \<Rightarrow> byte" where
  "InvSubByte b = inv_sbox_table ! unat b"

text \<open>Multiplication in GF(2^8) modulo \<open>x^8 + x^4 + x^3 + x + 1\<close>, by repeated \<open>xtime\<close>.\<close>

definition xtime :: "byte \<Rightarrow> byte" where
  "xtime b = (if bit b 7 then push_bit 1 b XOR 0x1b else push_bit 1 b)"

fun gf_mul_aux :: "nat \<Rightarrow> byte \<Rightarrow> byte \<Rightarrow> byte" where
  "gf_mul_aux 0 a b = 0"
| "gf_mul_aux (Suc n) a b = (if bit b 0 then a else 0) XOR gf_mul_aux n (xtime a) (drop_bit 1 b)"

definition gf_mul :: "byte \<Rightarrow> byte \<Rightarrow> byte" where
  "gf_mul b a = gf_mul_aux 8 a b"

definition SubBytes :: "bytes \<Rightarrow> bytes" where
  "SubBytes st = map SubByte st"

definition InvSubBytes :: "bytes \<Rightarrow> bytes" where
  "InvSubBytes st = map InvSubByte st"

definition ShiftRows :: "bytes \<Rightarrow> bytes" where
  "ShiftRows st = map (\<lambda>i. st ! (i mod 4 + 4 * ((i div 4 + i mod 4) mod 4))) [0..<16]"

definition InvShiftRows :: "bytes \<Rightarrow> bytes" where
  "InvShiftRows st = map (\<lambda>i. st ! (i mod 4 + 4 * ((i div 4 + 4 - i mod 4) mod 4))) [0..<16]"

definition mix_column :: "bytes \<Rightarrow> bytes" where
  "mix_column a =
     [gf_mul 2 (a ! 0) XOR gf_mul 3 (a ! 1) XOR a ! 2 XOR a ! 3,
      a ! 0 XOR gf_mul 2 (a ! 1) XOR gf_mul 3 (a ! 2) XOR a ! 3,
      a ! 0 XOR a ! 1 XOR gf_mul 2 (a ! 2) XOR gf_mul 3 (a ! 3),
      gf_mul 3 (a ! 0) XOR a ! 1 XOR a ! 2 XOR gf_mul 2 (a ! 3)]"

definition inv_mix_column :: "bytes \<Rightarrow> bytes" where
  "inv_mix_column a =
     [gf_mul 0x0e (a ! 0) XOR gf_mul 0x0b (a ! 1) XOR gf_mul 0x0d (a ! 2) XOR gf_mul 0x09 (a ! 3),
      gf_mul 0x09 (a ! 0) XOR gf_mul 0x0e (a ! 1) XOR gf_mul 0x0b (a ! 2) XOR gf_mul 0x0d (a ! 3),
      gf_mul 0x0d (a ! 0) XOR gf_mul 0x09 (a ! 1) XOR gf_mul 0x0e (a ! 2) XOR gf_mul 0x0b (a ! 3),
      gf_mul 0x0b (a ! 0) XOR gf_mul 0x0d (a ! 1) XOR gf_mul 0x09 (a ! 2) XOR gf_mul 0x0e (a ! 3)]"

definition column :: "bytes \<Rightarrow> nat \<Rightarrow> bytes" where
  "column st c = take 4 (drop (4 * c) st)"

definition MixColumns :: "bytes \<Rightarrow> bytes" where
  "MixColumns st = concat (map (\<lambda>c. mix_column (column st c)) [0..<4])"

definition InvMixColumns :: "bytes \<Rightarrow> bytes" where
  "InvMixColumns st = concat (map (\<lambda>c. inv_mix_column (column st c)) [0..<4])"

definition xor_bytes :: "bytes \<Rightarrow> bytes \<Rightarrow> bytes" where
  "xor_bytes a b = map2 (XOR) a b"

definition AddRoundKey :: "bytes \<Rightarrow> bytes \<Rightarrow> bytes" where
  "AddRoundKey st rk = xor_bytes st rk"

text \<open>The key schedule: \<open>Nk\<close> key words are expanded to \<open>4 * (Nr + 1)\<close> words.\<close>

definition RotWord :: "bytes \<Rightarrow> bytes" where
  "RotWord w = rotate1 w"

definition SubWord :: "bytes \<Rightarrow> bytes" where
  "SubWord w = map SubByte w"

definition Rcon :: "nat \<Rightarrow> bytes" where
  "Rcon i = [(xtime ^^ (i - 1)) 1, 0, 0, 0]"

fun expand_words :: "nat \<Rightarrow> nat \<Rightarrow> bytes list \<Rightarrow> bytes list" where
  "expand_words Nk 0 w = w"
| "expand_words Nk (Suc n) w =
     (let i = length w;
          temp = w ! (i - 1);
          temp' = (if i mod Nk = 0 then xor_bytes (SubWord (RotWord temp)) (Rcon (i div Nk))
                   else if Nk > 6 \<and> i mod Nk = 4 then SubWord temp
                   else temp)
      in expand_words Nk n (w @ [xor_bytes (w ! (i - Nk)) temp']))"

definition KeyExpansion :: "bytes \<Rightarrow> bytes list" where
  "KeyExpansion key =
     (let Nk = length key div 4; Nr = Nk + 6
      in expand_words Nk (4 * (Nr + 1) - Nk) (map (column key) [0..<Nk]))"

definition round_key :: "bytes list \<Rightarrow> nat \<Rightarrow> bytes" where
  "round_key w r = concat (take 4 (drop (4 * r) w))"

definition rounds :: "bytes list \<Rightarrow> nat" where
  "rounds w = length w div 4 - 1"

definition cipher_round :: "bytes list \<Rightarrow> bytes \<Rightarrow> nat \<Rightarrow> bytes" where
  "cipher_round w st r = AddRoundKey (MixColumns (ShiftRows (SubBytes st))) (round_key w r)"

definition Cipher :: "bytes list \<Rightarrow> bytes \<Rightarrow> bytes" where
  "Cipher w inp =
     (let st = foldl (cipher_round w) (AddRoundKey inp (round_key w 0)) [1..<rounds w]
      in AddRoundKey (ShiftRows (SubBytes st)) (round_key w (rounds w)))"

definition inv_cipher_round :: "bytes list \<Rightarrow> bytes \<Rightarrow> nat \<Rightarrow> bytes" where
  "inv_cipher_round w st r = InvMixColumns (AddRoundKey (InvSubBytes (InvShiftRows st)) (round_key w r))"

definition InvCipher :: "bytes list \<Rightarrow> bytes \<Rightarrow> bytes" where
  "InvCipher w inp =
     (let st = foldl (inv_cipher_round w) (AddRoundKey inp (round_key w (rounds w))) (rev [1..<rounds w])
      in AddRoundKey (InvSubBytes (InvShiftRows st)) (round_key w 0))"

section \<open>Encryption and decryption\<close>

text \<open>
  \<open>aes.NewCipher\<close> accepts keys of 16, 24 or 32 bytes and fails with \<open>KeySizeError\<close> on any
  other length. The cipher block it returns is represented by its expanded key.
\<close>

type_synonym block = "bytes list"

definition NewCipher :: "bytes \<Rightarrow> error + block" where
  "NewCipher key =
     (if length key = 16 \<or> length key = 24 \<or> length key = 32
      then Inr (KeyExpansion key)
      else Inl (KeySizeError (length key)))"

definition block_Encrypt :: "block \<Rightarrow> bytes \<Rightarrow> bytes" where
  "block_Encrypt b src = Cipher b src"

definition block_Decrypt :: "block \<Rightarrow> bytes \<Rightarrow> bytes" where
  "block_Decrypt b src = InvCipher b src"

text \<open>
  The ECB loop of \<open>Encrypt\<close> and of \<open>Decrypt\<close>:
  \<^verbatim>\<open>for i := 0; i < len(src); i += BlockSize { f(dst[i:i+BlockSize], src[i:i+BlockSize]) }\<close>
  where \<open>dst\<close> was made with the length of \<open>src\<close>. A slice expression that reaches beyond
  the slice panics; otherwise the block operation overwrites \<open>dst[i:i+BlockSize]\<close>.
\<close>

function ecb_loop :: "(bytes \<Rightarrow> bytes) \<Rightarrow> bytes \<Rightarrow> bytes \<Rightarrow> nat \<Rightarrow> error + bytes" where
  "ecb_loop f src dst i =
     (if i < length src
      then (if i + BlockSize \<le> length dst \<and> i + BlockSize \<le> length src
            then ecb_loop f src
                   (take i dst @ f (take BlockSize (drop i src)) @ drop (i + BlockSize) dst)
                   (i + BlockSize)
            else Inl RuntimePanic)
      else Inr dst)"
  by pat_completeness auto
termination
  by (relation "measure (\<lambda>(f, src, dst, i). length src - i)") (auto simp: BlockSize_def)

declare ecb_loop.simps [simp del]

definition Encrypt :: "bytes \<Rightarrow> bytes \<Rightarrow> error + bytes" where
  "Encrypt plaintext key =
     (if length plaintext = 0 then Inl ErrPlaintextEmpty
      else if length key = 0 then Inl ErrKeyEmpty
      else case NewCipher (aesKey key) of
             Inl err \<Rightarrow> Inl (ErrCreateCipher err)
           | Inr b \<Rightarrow>
               (case pkcs7Pad plaintext (int BlockSize) of
                  Inl panic \<Rightarrow> Inl panic
                | Inr paddedText \<Rightarrow>
                    ecb_loop (block_Encrypt b) paddedText (replicate (length paddedText) 0) 0))"

definition Decrypt :: "bytes \<Rightarrow> bytes \<Rightarrow> error + bytes" where
  "Decrypt ciphertext key =
     (if length ciphertext = 0 then Inl ErrCiphertextEmpty
      else if length key = 0 then Inl ErrKeyEmpty
      else if length ciphertext mod BlockSize \<noteq> 0 then Inl ErrCiphertextLength
      else case NewCipher (aesKey key) of
             Inl err \<Rightarrow> Inl (ErrCreateCipher err)
           | Inr b \<Rightarrow>
               (case ecb_loop (block_Decrypt b) ciphertext (replicate (length ciphertext) 0) 0 of
                  Inl panic \<Rightarrow> Inl panic
                | Inr plaintext \<Rightarrow>
                    (case pkcs7Unpad plaintext of
                       Inl err \<Rightarrow> Inl (ErrRemovePadding err)
                     | Inr unpaddedText \<Rightarrow> Inr unpaddedText)))"

section \<open>Hex text\<close>

text \<open>
  Modelled from the documentation of the external library: \<open>encoding/hex\<close> of the Go
  standard library, which is not part of this repository. \<open>EncodeToString\<close> writes two
  lower-case digits per byte; \<open>DecodeString\<close> accepts digits of either case and reports
  the first invalid byte, or \<open>ErrLength\<close> for an odd number of valid digits.
\<close>

definition hextable :: string where
  "hextable = ''0123456789abcdef''"

definition hex_EncodeToString :: "bytes \<Rightarrow> string" where
  "hex_EncodeToString src =
     concat (map (\<lambda>v. [hextable ! unat (drop_bit 4 v), hextable ! unat (v AND 0x0f)]) src)"

definition fromHexChar :: "char \<Rightarrow> byte option" where
  "fromHexChar c =
     (let n = (of_char c :: nat) in
      if 48 \<le> n \<and> n \<le> 57 then Some (of_nat (n - 48))
      else if 97 \<le> n \<and> n \<le> 102 then Some (of_nat (n - 97 + 10))
      else if 65 \<le> n \<and> n \<le> 70 then Some (of_nat (n - 65 + 10))
      else None)"

fun hex_DecodeString :: "string \<Rightarrow> error + bytes" where
  "hex_DecodeString [] = Inr []"
| "hex_DecodeString [p] =
     (case fromHexChar p of
        None \<Rightarrow> Inl (HexInvalidByteError (byte_of_char p))
      | Some a \<Rightarrow> Inl HexErrLength)"
| "hex_DecodeString (p # q # rest) =
     (case fromHexChar p of
        None \<Rightarrow> Inl (HexInvalidByteError (byte_of_char p))
      | Some a \<Rightarrow>
          (case fromHexChar q of
             None \<Rightarrow> Inl (HexInvalidByteError (byte_of_char q))
           | Some b \<Rightarrow>
               (case hex_DecodeString rest of
                  Inl err \<Rightarrow> Inl err
                | Inr bs \<Rightarrow> Inr ((push_bit 4 a OR b) # bs))))"

definition EncryptString :: "string \<Rightarrow> string \<Rightarrow> error + string" where
  "EncryptString plaintext key =
     (case Encrypt (bytes_of_string plaintext) (bytes_of_string key) of
        Inl err \<Rightarrow> Inl err
      | Inr encrypted \<Rightarrow> Inr (hex_EncodeToString encrypted))"

definition DecryptString :: "string \<Rightarrow> string \<Rightarrow> error + string" where
  "DecryptString ciphertextHex key =
     (case hex_DecodeString ciphertextHex of
        Inl err \<Rightarrow> Inl (ErrInvalidHex err)
      | Inr ciphertext \<Rightarrow>
          (case Decrypt ciphertext (bytes_of_string key) of
             Inl err \<Rightarrow> Inl err
           | Inr decrypted \<Rightarrow> Inr (string_of_bytes decrypted)))"

section \<open>Per-user keys\<close>

text \<open>
  \<open>DeriveUserKey\<close> takes an \<open>interface{}\<close> and switches on its dynamic type. The cases of
  the switch are the constructors of \<open>user_id\<close>; Go's \<open>uint\<close> and \<open>int\<close> are 64 bits wide
  on the platforms the package is built for. A value of any other type reaches the
  \<open>default\<close> branch and is rendered by \<open>fmt.Sprintf("%v", userID)\<close>: the constructor
  \<open>IdOther\<close> carries that rendering.
\<close>

datatype user_id =
    IdUint "64 word"       \<comment> \<open>case uint\<close>
  | IdUint64 "64 word"     \<comment> \<open>case uint64\<close>
  | IdInt "64 word"        \<comment> \<open>case int\<close>
  | IdInt64 "64 word"      \<comment> \<open>case int64\<close>
  | IdString string        \<comment> \<open>case string\<close>
  | IdOther string         \<comment> \<open>default\<close>

record UserKeyDeriver =
  baseKey :: string
  masterSalt :: string

definition NewUserKeyDeriver :: "string \<Rightarrow> string \<Rightarrow> UserKeyDeriver" where
  "NewUserKeyDeriver b s = \<lparr>baseKey = b, masterSalt = s\<rparr>"

text \<open>
  \<open>strconv.FormatUint(v, 10)\<close> and \<open>strconv.FormatInt(v, 10)\<close>: the decimal digits of the
  value, most significant first, with a leading minus sign for a negative value.
\<close>

definition digit_char :: "nat \<Rightarrow> char" where
  "digit_char d = char_of (48 + d)"

fun FormatUint :: "nat \<Rightarrow> string" where
  "FormatUint n = (if n < 10 then [digit_char n] else FormatUint (n div 10) @ [digit_char (n mod 10)])"

declare FormatUint.simps [simp del]

definition FormatInt :: "int \<Rightarrow> string" where
  "FormatInt i = (if i < 0 then CHR ''-'' # FormatUint (nat (- i)) else FormatUint (nat i))"

definition DeriveUserKey :: "UserKeyDeriver \<Rightarrow> user_id \<Rightarrow> string" where
  "DeriveUserKey ukd userID =
     (let userIDStr =
        (case userID of
           IdUint v \<Rightarrow> FormatUint (unat v)
         | IdUint64 v \<Rightarrow> FormatUint (unat v)
         | IdInt v \<Rightarrow> FormatInt (sint v)
         | IdInt64 v \<Rightarrow> FormatInt (sint v)
         | IdString v \<Rightarrow> v
         | IdOther rendering \<Rightarrow> rendering)
      in baseKey ukd @ userIDStr @ '':'' @ masterSalt ukd)"

definition EncryptForUser :: "UserKeyDeriver \<Rightarrow> string \<Rightarrow> user_id \<Rightarrow> error + string" where
  "EncryptForUser ukd plaintext userID = EncryptString plaintext (DeriveUserKey ukd userID)"

definition DecryptForUser :: "UserKeyDeriver \<Rightarrow> string \<Rightarrow> user_id \<Rightarrow> error + string" where
  "DecryptForUser ukd ciphertextHex userID = DecryptString ciphertextHex (DeriveUserKey ukd userID)"

section \<open>Auxiliary notions for the proofs\<close>

text \<open>A key schedule is well formed when each of its round keys is a full block.\<close>

definition wf_schedule :: "bytes list \<Rightarrow> bool" where
  "wf_schedule w \<longleftrightarrow> (\<forall>r \<le> rounds w. length (round_key w r) = 16)"

text \<open>
  What the ECB loop computes, block by block: the block operation applied to each
  16-byte block of the input, the results concatenated.
\<close>

function ecb_map :: "(bytes \<Rightarrow> bytes) \<Rightarrow> bytes \<Rightarrow> bytes" where
  "ecb_map f xs = (if xs = [] then [] else f (take BlockSize xs) @ ecb_map f (drop BlockSize xs))"
  by pat_completeness auto
termination
  by (relation "measure (\<lambda>(f, xs). length xs)") (auto simp: BlockSize_def)

declare ecb_map.simps [simp del]

text \<open>
  Key folding as the specification words it: unless the key has exactly 16 bytes, start
  from a zero-filled buffer of 16 bytes holding the first up-to-16 key bytes, then XOR
  every key byte at a position \<open>i \<ge> 16\<close> into buffer position \<open>i mod 16\<close>.
\<close>

definition fold_step :: "bytes \<Rightarrow> bytes \<Rightarrow> nat \<Rightarrow> bytes" where
  "fold_step key buf i = buf[i mod 16 := (buf ! (i mod 16)) XOR (key ! i)]"

definition fold_key_spec :: "bytes \<Rightarrow> bytes" where
  "fold_key_spec key =
     (if length key = 16 then key
      else foldl (fold_step key) (take 16 key @ replicate (16 - length key) 0) [16..<length key])"

text \<open>
  Valid hex text, as the specification words it: an even number of characters, each a
  hexadecimal digit of either case.
\<close>

definition is_hex_digit :: "char \<Rightarrow> bool" where
  "is_hex_digit c \<longleftrightarrow> c \<in> set ''0123456789abcdefABCDEF''"

definition valid_hex :: "string \<Rightarrow> bool" where
  "valid_hex s \<longleftrightarrow> even (length s) \<and> list_all is_hex_digit s"

text \<open>A result fails with an error of the given kind.\<close>

definition fails_with :: "error + 'a \<Rightarrow> error_kind \<Rightarrow> bool" where
  "fails_with r kd = (case r of Inl e \<Rightarrow> kind e = Some kd | Inr v \<Rightarrow> False)"

text \<open>The number a string of decimal digits denotes.\<close>

definition is_digit :: "char \<Rightarrow> bool" where
  "is_digit c \<longleftrightarrow> c \<in> set ''0123456789''"

definition dec_value :: "string \<Rightarrow> nat" where
  "dec_value s = foldl (\<lambda>acc c. 10 * acc + (of_char c - 48)) 0 s"


section \<open>Padding: properties\<close>

lemma unpad_verify_iff:
  "unpad_verify data padding i \<longleftrightarrow> (\<forall>n. i \<le> n \<and> n < length data \<longrightarrow> data ! n = of_nat padding)"
proof (induction data padding i rule: unpad_verify.induct)
  case (1 data padding i)
  show ?case
  proof (cases "i < length data")
    case False
    then show ?thesis by (subst unpad_verify.simps) auto
  next
    case True
    show ?thesis
    proof (cases "data ! i = of_nat padding")
      case False
      with True show ?thesis
        by (subst unpad_verify.simps) auto
    next
      case eq: True
      have "unpad_verify data padding i = unpad_verify data padding (i + 1)"
        using True eq by (subst unpad_verify.simps) simp
      also have "\<dots> \<longleftrightarrow> (\<forall>n. i + 1 \<le> n \<and> n < length data \<longrightarrow> data ! n = of_nat padding)"
        using "1.IH" True eq by simp
      also have "\<dots> \<longleftrightarrow> (\<forall>n. i \<le> n \<and> n < length data \<longrightarrow> data ! n = of_nat padding)"
      proof (intro iffI allI impI)
        fix n assume a: "\<forall>n. i + 1 \<le> n \<and> n < length data \<longrightarrow> data ! n = of_nat padding" and b: "i \<le> n \<and> n < length data"
        show "data ! n = of_nat padding"
        proof (cases "n = i")
          case True with eq show ?thesis by simp
        next
          case False with a b show ?thesis by simp
        qed
      next
        fix n assume a: "\<forall>n. i \<le> n \<and> n < length data \<longrightarrow> data ! n = of_nat padding" and b: "i + 1 \<le> n \<and> n < length data"
        then show "data ! n = of_nat padding" by simp
      qed
      finally show ?thesis .
    qed
  qed
qed

lemma pkcs7Pad_BlockSize:
  "pkcs7Pad data (int BlockSize) =
     Inr (data @ replicate (16 - length data mod 16) (of_nat (16 - length data mod 16)))"
proof -
  have lt: "length data mod 16 < 16" by simp
  have eq: "16 - int (length data) mod 16 = int (16 - length data mod 16)"
    using lt by (simp add: zmod_int of_nat_diff)
  show ?thesis
    unfolding pkcs7Pad_def BlockSize_def Let_def
    by (simp add: eq del: of_nat_diff)
qed

lemma pkcs7Unpad_padded:
  assumes "1 \<le> n" and "n \<le> 255"
  shows "pkcs7Unpad (data @ replicate n (of_nat n)) = Inr data"
proof -
  let ?p = "data @ replicate n (of_nat n :: byte)"
  have len: "length ?p = length data + n" by simp
  have last: "?p ! (length ?p - 1) = of_nat n"
  proof -
    have "\<not> length data + n - 1 < length data" using assms by simp
    moreover have "length data + n - 1 - length data < n" using assms by simp
    ultimately show ?thesis by (simp add: nth_append del: One_nat_def)
  qed
  have un: "unat (of_nat n :: byte) = n"
    using assms by (simp add: unat_of_nat)
  have ver: "unpad_verify ?p n (length ?p - n)"
    unfolding unpad_verify_iff by (auto simp: nth_append)
  show ?thesis
    unfolding pkcs7Unpad_def Let_def last un
    using assms ver by simp
qed

section \<open>The block cipher: decryption inverts encryption\<close>

lemma xtime_xor: "xtime (a XOR b) = xtime a XOR xtime b"
  by (simp add: xtime_def bit_xor_iff push_bit_xor ac_simps)

lemma gf_mul_aux_xor: "gf_mul_aux n (a XOR a') b = gf_mul_aux n a b XOR gf_mul_aux n a' b"
  by (induction n arbitrary: a a' b) (simp_all add: xtime_xor ac_simps)

lemma gf_mul_aux_zero: "gf_mul_aux n a 0 = 0"
  by (induction n arbitrary: a) simp_all

lemma drop_consts:
  "drop_bit 1 (1::byte) = 0" "drop_bit 1 (2::byte) = 1" "drop_bit 1 (3::byte) = 1"
  "drop_bit 1 (4::byte) = 2" "drop_bit 1 (5::byte) = 2" "drop_bit 1 (6::byte) = 3"
  "drop_bit 1 (7::byte) = 3" "drop_bit 1 (9::byte) = 4" "drop_bit 1 (11::byte) = 5"
  "drop_bit 1 (13::byte) = 6" "drop_bit 1 (14::byte) = 7"
  by (simp_all add: drop_bit_Suc)

lemma bit0_consts:
  "bit (1::byte) 0 = True" "bit (2::byte) 0 = False" "bit (3::byte) 0 = True"
  "bit (4::byte) 0 = False" "bit (5::byte) 0 = True" "bit (6::byte) 0 = False"
  "bit (7::byte) 0 = True" "bit (9::byte) 0 = True" "bit (11::byte) 0 = True"
  "bit (13::byte) 0 = True" "bit (14::byte) 0 = False"
  by simp_all

lemma eight_Suc: "(8::nat) = Suc (Suc (Suc (Suc (Suc (Suc (Suc (Suc 0)))))))"
  by simp

lemma gf_mul_consts:
  "gf_mul 2 a = xtime a"
  "gf_mul 3 a = a XOR xtime a"
  "gf_mul 0x09 a = a XOR xtime (xtime (xtime a))"
  "gf_mul 0x0b a = a XOR xtime a XOR xtime (xtime (xtime a))"
  "gf_mul 0x0d a = a XOR xtime (xtime a) XOR xtime (xtime (xtime a))"
  "gf_mul 0x0e a = xtime a XOR xtime (xtime a) XOR xtime (xtime (xtime a))"
  by (simp_all only: gf_mul_def eight_Suc gf_mul_aux.simps bit0_consts drop_consts
        gf_mul_aux_zero if_True if_False xor.right_neutral xor.left_neutral xor.assoc)

lemma xor_cancel3: "(a::byte) XOR (a XOR b) = b"
  by (simp add: xor.assoc [symmetric])

lemma inv_mix_column_mix_column:
  "inv_mix_column (mix_column [a0, a1, a2, a3]) = [a0, a1, a2, a3]"
  by (simp add: inv_mix_column_def mix_column_def gf_mul_consts xtime_xor xor_cancel3 ac_simps)


lemma length16_cases:
  assumes "length (st :: 'a list) = 16"
  obtains a0 a1 a2 a3 a4 a5 a6 a7 a8 a9 a10 a11 a12 a13 a14 a15
  where "st = [a0, a1, a2, a3, a4, a5, a6, a7, a8, a9, a10, a11, a12, a13, a14, a15]"
proof -
  from assms have "st = map (\<lambda>i. st ! i) [0..<16]"
    by (metis map_nth)
  also have "[0..<16] = [0,1,2,3,4,5,6,7,8,9,10,11,12,13,14,15::nat]"
    by (simp add: upt_rec)
  finally show ?thesis using that by simp
qed

lemma upt16: "[0..<16] = [0,1,2,3,4,5,6,7,8,9,10,11,12,13,14,15::nat]"
  by (simp add: upt_rec)

lemma upt4: "[0..<4] = [0,1,2,3::nat]"
  by (simp add: upt_rec)

lemma length_ShiftRows: "length (ShiftRows st) = 16"
  by (simp add: ShiftRows_def)

lemma length_InvShiftRows: "length (InvShiftRows st) = 16"
  by (simp add: InvShiftRows_def)

lemma length_SubBytes: "length (SubBytes st) = length st"
  by (simp add: SubBytes_def)

lemma length_InvSubBytes: "length (InvSubBytes st) = length st"
  by (simp add: InvSubBytes_def)

lemma length_MixColumns: "length (MixColumns st) = 16"
  by (simp add: MixColumns_def mix_column_def upt4)

lemma length_InvMixColumns: "length (InvMixColumns st) = 16"
  by (simp add: InvMixColumns_def inv_mix_column_def upt4)

lemma length_AddRoundKey: "length (AddRoundKey st rk) = min (length st) (length rk)"
  by (simp add: AddRoundKey_def xor_bytes_def)

lemma InvShiftRows_ShiftRows:
  assumes "length st = 16"
  shows "InvShiftRows (ShiftRows st) = st"
proof -
  from assms obtain a0 a1 a2 a3 a4 a5 a6 a7 a8 a9 a10 a11 a12 a13 a14 a15
    where st: "st = [a0, a1, a2, a3, a4, a5, a6, a7, a8, a9, a10, a11, a12, a13, a14, a15]"
    by (rule length16_cases)
  show ?thesis
    unfolding st ShiftRows_def InvShiftRows_def upt16 by simp
qed

lemma InvMixColumns_MixColumns:
  assumes "length st = 16"
  shows "InvMixColumns (MixColumns st) = st"
proof -
  from assms obtain a0 a1 a2 a3 a4 a5 a6 a7 a8 a9 a10 a11 a12 a13 a14 a15
    where st: "st = [a0, a1, a2, a3, a4, a5, a6, a7, a8, a9, a10, a11, a12, a13, a14, a15]"
    by (rule length16_cases)
  have mc: "MixColumns st = mix_column [a0, a1, a2, a3] @ mix_column [a4, a5, a6, a7]
              @ mix_column [a8, a9, a10, a11] @ mix_column [a12, a13, a14, a15]"
    unfolding st MixColumns_def upt4 column_def by simp
  have len: "length (mix_column c) = 4" for c by (simp add: mix_column_def)
  have "InvMixColumns (MixColumns st) =
          inv_mix_column (mix_column [a0, a1, a2, a3]) @ inv_mix_column (mix_column [a4, a5, a6, a7])
          @ inv_mix_column (mix_column [a8, a9, a10, a11]) @ inv_mix_column (mix_column [a12, a13, a14, a15])"
    unfolding mc InvMixColumns_def upt4 column_def by (simp add: len)
  then show ?thesis
    unfolding inv_mix_column_mix_column st by simp
qed


lemma byte_all: "(\<forall>b::byte. P b) \<longleftrightarrow> (\<forall>n\<in>set [0..<256]. P (of_nat n))"
proof
  assume r: "\<forall>n\<in>set [0..<256]. P (of_nat n)"
  show "\<forall>b::byte. P b"
  proof
    fix b :: byte
    have "unat b < 256" using unsigned_less [of b] by simp
    then have "unat b \<in> set [0..<256]" by simp
    with r have "P (of_nat (unat b))" by blast
    then show "P b" by (simp only: of_nat_unat ucast_id)
  qed
qed simp

lemma InvSubByte_SubByte_all: "\<forall>b. InvSubByte (SubByte b) = b"
  unfolding byte_all by code_simp

lemma InvSubByte_SubByte: "InvSubByte (SubByte b) = b"
  using InvSubByte_SubByte_all by blast

lemma InvSubBytes_SubBytes: "InvSubBytes (SubBytes st) = st"
  by (simp add: InvSubBytes_def SubBytes_def InvSubByte_SubByte comp_def)

lemma xor_bytes_cancel:
  "length st \<le> length rk \<Longrightarrow> xor_bytes (xor_bytes st rk) rk = st"
proof (induction st arbitrary: rk)
  case Nil
  then show ?case by (simp add: xor_bytes_def)
next
  case (Cons a st)
  then obtain k rk' where rk: "rk = k # rk'" by (cases rk) auto
  with Cons.prems have "length st \<le> length rk'" by simp
  from Cons.IH [OF this] show ?case
    by (simp add: rk xor_bytes_def xor.assoc)
qed

lemma AddRoundKey_cancel:
  "length st \<le> length rk \<Longrightarrow> AddRoundKey (AddRoundKey st rk) rk = st"
  by (simp add: AddRoundKey_def xor_bytes_cancel)

lemma cipher_round_length:
  "length (round_key w r) = 16 \<Longrightarrow> length (cipher_round w st r) = 16"
  by (simp add: cipher_round_def length_AddRoundKey length_MixColumns)

lemma foldl_cipher_round_length:
  "length st = 16 \<Longrightarrow> \<forall>r\<in>set rs. length (round_key w r) = 16
     \<Longrightarrow> length (foldl (cipher_round w) st rs) = 16"
  by (induction rs arbitrary: st) (simp_all add: cipher_round_length)

lemma inv_round_undoes_round:
  assumes "length st = 16" and "length (round_key w r) = 16"
  shows "inv_cipher_round w (ShiftRows (SubBytes (cipher_round w st r))) r = ShiftRows (SubBytes st)"
proof -
  let ?m = "MixColumns (ShiftRows (SubBytes st))"
  have c: "cipher_round w st r = AddRoundKey ?m (round_key w r)"
    by (simp add: cipher_round_def)
  have lc: "length (cipher_round w st r) = 16"
    using assms(2) by (rule cipher_round_length)
  have "InvSubBytes (InvShiftRows (ShiftRows (SubBytes (cipher_round w st r)))) = cipher_round w st r"
    using lc by (simp add: InvShiftRows_ShiftRows length_SubBytes InvSubBytes_SubBytes)
  moreover have "AddRoundKey (cipher_round w st r) (round_key w r) = ?m"
    unfolding c using assms(2) by (simp add: AddRoundKey_cancel length_MixColumns)
  moreover have "InvMixColumns ?m = ShiftRows (SubBytes st)"
    by (simp add: InvMixColumns_MixColumns length_ShiftRows)
  ultimately show ?thesis
    by (simp add: inv_cipher_round_def)
qed

lemma inv_rounds_undo_rounds:
  assumes "length st = 16" and "\<forall>r\<in>set rs. length (round_key w r) = 16"
  shows "foldl (inv_cipher_round w) (ShiftRows (SubBytes (foldl (cipher_round w) st rs))) (rev rs)
           = ShiftRows (SubBytes st)"
  using assms
proof (induction rs arbitrary: st rule: rev_induct)
  case Nil
  then show ?case by simp
next
  case (snoc r rs)
  have rk: "length (round_key w r) = 16" and rks: "\<forall>r\<in>set rs. length (round_key w r) = 16"
    using snoc.prems(2) by simp_all
  let ?e = "foldl (cipher_round w) st rs"
  have le: "length ?e = 16"
    using snoc.prems(1) rks by (rule foldl_cipher_round_length)
  have "foldl (inv_cipher_round w) (ShiftRows (SubBytes (foldl (cipher_round w) st (rs @ [r])))) (rev (rs @ [r]))
          = foldl (inv_cipher_round w) (inv_cipher_round w (ShiftRows (SubBytes (cipher_round w ?e r))) r) (rev rs)"
    by simp
  also have "\<dots> = foldl (inv_cipher_round w) (ShiftRows (SubBytes ?e)) (rev rs)"
    by (simp only: inv_round_undoes_round [OF le rk])
  also have "\<dots> = ShiftRows (SubBytes st)"
    using snoc.IH [OF snoc.prems(1) rks] .
  finally show ?case .
qed

lemma InvCipher_Cipher:
  assumes "wf_schedule w" and "length inp = 16"
  shows "InvCipher w (Cipher w inp) = inp"
proof -
  have rk: "length (round_key w r) = 16" if "r \<le> rounds w" for r
    using assms(1) that by (simp add: wf_schedule_def)
  have rks: "\<forall>r\<in>set [1..<rounds w]. length (round_key w r) = 16"
    using rk by simp
  let ?s0 = "AddRoundKey inp (round_key w 0)"
  let ?e = "foldl (cipher_round w) ?s0 [1..<rounds w]"
  have l0: "length ?s0 = 16"
    using assms(2) rk [of 0] by (simp add: length_AddRoundKey)
  have c: "Cipher w inp = AddRoundKey (ShiftRows (SubBytes ?e)) (round_key w (rounds w))"
    by (simp add: Cipher_def Let_def)
  have "AddRoundKey (Cipher w inp) (round_key w (rounds w)) = ShiftRows (SubBytes ?e)"
    unfolding c using rk [of "rounds w"] by (simp add: AddRoundKey_cancel length_ShiftRows)
  then have "InvCipher w (Cipher w inp)
      = AddRoundKey (InvSubBytes (InvShiftRows
          (foldl (inv_cipher_round w) (ShiftRows (SubBytes ?e)) (rev [1..<rounds w])))) (round_key w 0)"
    by (simp add: InvCipher_def Let_def)
  also have "\<dots> = AddRoundKey (InvSubBytes (InvShiftRows (ShiftRows (SubBytes ?s0)))) (round_key w 0)"
    by (simp only: inv_rounds_undo_rounds [OF l0 rks])
  also have "\<dots> = AddRoundKey ?s0 (round_key w 0)"
    using l0 by (simp add: InvShiftRows_ShiftRows length_SubBytes InvSubBytes_SubBytes)
  also have "\<dots> = inp"
    using assms(2) rk [of 0] by (simp add: AddRoundKey_cancel)
  finally show ?thesis .
qed

lemma length_Cipher:
  assumes "wf_schedule w"
  shows "length (Cipher w inp) = 16"
  using assms by (simp add: Cipher_def Let_def length_AddRoundKey length_ShiftRows wf_schedule_def)


lemma length_expand_words: "length (expand_words Nk n w) = length w + n"
  by (induction n arbitrary: w) (simp_all add: Let_def)

lemma length_xor_bytes: "length (xor_bytes a b) = min (length a) (length b)"
  by (simp add: xor_bytes_def)

lemma words_expand_words:
  assumes "0 < Nk" and "w \<noteq> []" and "\<forall>x\<in>set w. length x = 4"
  shows "\<forall>x\<in>set (expand_words Nk n w). length x = 4"
  using assms(2,3)
proof (induction n arbitrary: w)
  case 0
  then show ?case by simp
next
  case (Suc n)
  let ?i = "length w"
  let ?temp = "w ! (?i - 1)"
  let ?temp' = "(if ?i mod Nk = 0 then xor_bytes (SubWord (RotWord ?temp)) (Rcon (?i div Nk))
                 else if Nk > 6 \<and> ?i mod Nk = 4 then SubWord ?temp else ?temp)"
  let ?new = "xor_bytes (w ! (?i - Nk)) ?temp'"
  have pos: "0 < ?i" using Suc.prems(1) by simp
  have t: "length ?temp = 4"
    using Suc.prems(2) pos by simp
  have t': "length ?temp' = 4"
    using t by (simp add: length_xor_bytes SubWord_def RotWord_def Rcon_def)
  have "?i - Nk < ?i" using pos assms(1) by simp
  then have "length (w ! (?i - Nk)) = 4"
    using Suc.prems(2) by simp
  with t' have n4: "length ?new = 4"
    by (simp add: length_xor_bytes)
  have "\<forall>x\<in>set (w @ [?new]). length x = 4"
    using Suc.prems(2) n4 by simp
  moreover have "w @ [?new] \<noteq> []" by simp
  ultimately have "\<forall>x\<in>set (expand_words Nk n (w @ [?new])). length x = 4"
    by (rule Suc.IH [rotated])
  then show ?case
    by (simp only: expand_words.simps Let_def)
qed

lemma length_concat_words:
  "\<forall>x\<in>set ws. length x = 4 \<Longrightarrow> length (concat ws) = 4 * length ws"
  by (induction ws) simp_all

lemma length_round_key:
  assumes "\<forall>x\<in>set w. length x = 4" and "4 * r + 4 \<le> length w"
  shows "length (round_key w r) = 16"
proof -
  have "\<forall>x\<in>set (take 4 (drop (4 * r) w)). length x = 4"
    using assms(1) by (meson in_set_dropD in_set_takeD)
  then have "length (round_key w r) = 4 * length (take 4 (drop (4 * r) w))"
    unfolding round_key_def by (rule length_concat_words)
  also have "\<dots> = 16" using assms(2) by simp
  finally show ?thesis .
qed

lemma wf_schedule_KeyExpansion:
  assumes "length key = 16 \<or> length key = 24 \<or> length key = 32"
  shows "wf_schedule (KeyExpansion key)"
proof -
  let ?Nk = "length key div 4"
  let ?init = "map (column key) [0..<?Nk]"
  let ?w = "expand_words ?Nk (4 * (?Nk + 6 + 1) - ?Nk) ?init"
  have Nk: "0 < ?Nk" "4 * ?Nk \<le> length key" using assms by auto
  have w: "KeyExpansion key = ?w" by (simp add: KeyExpansion_def Let_def)
  have w0: "\<forall>x\<in>set ?init. length x = 4"
    using Nk(2) by (auto simp: column_def)
  have ne: "?init \<noteq> []" using Nk(1) by simp
  have words: "\<forall>x\<in>set ?w. length x = 4"
    by (rule words_expand_words [OF Nk(1) ne w0])
  have len: "length ?w = 4 * (?Nk + 7)"
    by (simp add: length_expand_words)
  then have r: "rounds ?w = ?Nk + 6" by (simp add: rounds_def)
  show ?thesis
    unfolding wf_schedule_def w
  proof (intro allI impI)
    fix r assume "r \<le> rounds ?w"
    with r len have "4 * r + 4 \<le> length ?w" by simp
    with words show "length (round_key ?w r) = 16" by (rule length_round_key)
  qed
qed

lemma NewCipher_aesKey_ok:
  "length k = 16 \<Longrightarrow> NewCipher k = Inr (KeyExpansion k) \<and> wf_schedule (KeyExpansion k)"
  by (simp add: NewCipher_def wf_schedule_KeyExpansion)

text \<open>
  The model against the standard: the example vector of FIPS-197, Appendix C.1
  (AES-128, key \<open>00 01 \<dots> 0f\<close>, plaintext \<open>00 11 \<dots> ff\<close>).
\<close>

lemma Cipher_known_answer:
  "Cipher (KeyExpansion [0x00, 0x01, 0x02, 0x03, 0x04, 0x05, 0x06, 0x07,
                         0x08, 0x09, 0x0a, 0x0b, 0x0c, 0x0d, 0x0e, 0x0f])
     [0x00, 0x11, 0x22, 0x33, 0x44, 0x55, 0x66, 0x77, 0x88, 0x99, 0xaa, 0xbb, 0xcc, 0xdd, 0xee, 0xff]
   = [0x69, 0xc4, 0xe0, 0xd8, 0x6a, 0x7b, 0x04, 0x30, 0xd8, 0xcd, 0xb7, 0x80, 0x70, 0xb4, 0xc5, 0x5a]"
  by code_simp

section \<open>The ECB loop\<close>

lemma ecb_map_Nil: "ecb_map f [] = []"
  by (subst ecb_map.simps) simp

lemma ecb_map_step:
  "xs \<noteq> [] \<Longrightarrow> ecb_map f xs = f (take 16 xs) @ ecb_map f (drop 16 xs)"
  by (subst ecb_map.simps) (simp add: BlockSize_def)

lemma block_ge:
  "xs \<noteq> [] \<Longrightarrow> 16 dvd length xs \<Longrightarrow> 16 \<le> length xs"
  by (simp add: dvd_imp_le)

lemma length_ecb_map:
  assumes f: "\<And>b. length b = 16 \<Longrightarrow> length (f b) = 16"
  shows "16 dvd length xs \<Longrightarrow> length (ecb_map f xs) = length xs"
proof (induction xs rule: length_induct)
  case (1 xs)
  show ?case
  proof (cases "xs = []")
    case True
    then show ?thesis by (simp add: ecb_map_Nil)
  next
    case False
    with "1.prems" have ge: "16 \<le> length xs" by (simp add: block_ge)
    then have d: "16 dvd length (drop 16 xs)"
      using "1.prems" by simp
    have lt: "length (drop 16 xs) < length xs"
      using ge by simp
    have "length (f (take 16 xs)) = 16"
      using ge by (simp add: f)
    moreover have "length (ecb_map f (drop 16 xs)) = length (drop 16 xs)"
      using "1.IH" lt d by blast
    ultimately show ?thesis
      using ge by (simp add: ecb_map_step [OF False])
  qed
qed

lemma ecb_map_inverse:
  assumes f: "\<And>b. length b = 16 \<Longrightarrow> length (f b) = 16"
      and gf: "\<And>b. length b = 16 \<Longrightarrow> g (f b) = b"
  shows "16 dvd length xs \<Longrightarrow> ecb_map g (ecb_map f xs) = xs"
proof (induction xs rule: length_induct)
  case (1 xs)
  show ?case
  proof (cases "xs = []")
    case True
    then show ?thesis by (simp add: ecb_map_Nil)
  next
    case False
    with "1.prems" have ge: "16 \<le> length xs" by (simp add: block_ge)
    then have d: "16 dvd length (drop 16 xs)"
      using "1.prems" by simp
    have lt: "length (drop 16 xs) < length xs"
      using ge by simp
    have t: "length (take 16 xs) = 16" using ge by simp
    have lf: "length (f (take 16 xs)) = 16" using t by (rule f)
    have ih: "ecb_map g (ecb_map f (drop 16 xs)) = drop 16 xs"
      using "1.IH" lt d by blast
    let ?c = "f (take 16 xs) @ ecb_map f (drop 16 xs)"
    have ne: "?c \<noteq> []" using lf by auto
    have "ecb_map g (ecb_map f xs) = ecb_map g ?c"
      by (simp only: ecb_map_step [OF False])
    also have "\<dots> = g (take 16 ?c) @ ecb_map g (drop 16 ?c)"
      by (rule ecb_map_step [OF ne])
    also have "\<dots> = g (f (take 16 xs)) @ ecb_map g (ecb_map f (drop 16 xs))"
      using lf by simp
    also have "\<dots> = take 16 xs @ drop 16 xs"
      by (simp only: gf [OF t] ih)
    finally show ?thesis by simp
  qed
qed

lemma ecb_loop_eq:
  assumes f: "\<And>b. length b = 16 \<Longrightarrow> length (f b) = 16"
  shows "length dst = length src \<Longrightarrow> 16 dvd (length src - i) \<Longrightarrow> i \<le> length src
           \<Longrightarrow> ecb_loop f src dst i = Inr (take i dst @ ecb_map f (drop i src))"
proof (induction "length src - i" arbitrary: dst i rule: less_induct)
  case less
  show ?case
  proof (cases "i < length src")
    case False
    with less.prems have "i = length src" by simp
    with less.prems show ?thesis
      by (subst ecb_loop.simps) (simp add: ecb_map_Nil)
  next
    case True
    then have ne: "drop i src \<noteq> []" by simp
    from True less.prems(2) have ge: "16 \<le> length src - i"
      by (simp add: dvd_imp_le)
    let ?blk = "f (take 16 (drop i src))"
    let ?dst' = "take i dst @ ?blk @ drop (i + 16) dst"
    have lb: "length ?blk = 16" using ge by (simp add: f)
    have ld: "length ?dst' = length src"
      using ge lb less.prems(1,3) by simp
    have d: "16 dvd (length src - (i + 16))"
      using less.prems(2) ge by (metis diff_diff_left dvd_diff_nat dvd_refl)
    have ge': "i + 16 \<le> length src" using ge True by simp
    have step: "ecb_loop f src dst i = ecb_loop f src ?dst' (i + 16)"
      using True ge' less.prems(1) by (subst ecb_loop.simps) (simp add: BlockSize_def)
    have "ecb_loop f src ?dst' (i + 16) = Inr (take (i + 16) ?dst' @ ecb_map f (drop (i + 16) src))"
      using ge by (intro less.hyps ld d) simp_all
    also have "take (i + 16) ?dst' = take i dst @ ?blk"
      using lb less.prems(1,3) ge by simp
    also have "(take i dst @ ?blk) @ ecb_map f (drop (i + 16) src) = take i dst @ ecb_map f (drop i src)"
      by (simp add: ecb_map_step [OF ne] add.commute)
    finally show ?thesis using step by simp
  qed
qed

section \<open>Encrypt and Decrypt: what they compute\<close>

lemma length_aesKey_inner: "length (fst (aesKey_inner key k j i)) = length k"
proof (induction key k j i rule: aesKey_inner.induct)
  case (1 key k j i)
  show ?case
  proof (cases "j < keyLen \<and> i < length key")
    case True
    have "aesKey_inner key k j i = aesKey_inner key (k[j := (k ! j) XOR (key ! i)]) (j + 1) (i + 1)"
      using True by (subst aesKey_inner.simps) simp
    with "1.IH" [OF True] show ?thesis by simp
  next
    case False
    have "aesKey_inner key k j i = (k, i)"
      by (subst aesKey_inner.simps) (simp only: False if_False)
    then show ?thesis by simp
  qed
qed

lemma length_aesKey_outer: "length (aesKey_outer key k i) = length k"
proof (induction key k i rule: aesKey_outer.induct)
  case (1 key k i)
  show ?case
  proof (cases "i < length key")
    case False
    then show ?thesis by (subst aesKey_outer.simps) simp
  next
    case True
    obtain k' i' where r: "aesKey_inner key k 0 i = (k', i')"
      by (cases "aesKey_inner key k 0 i")
    have "length k' = length k"
      using length_aesKey_inner [of key k 0 i] r by simp
    moreover have "aesKey_outer key k i = aesKey_outer key k' i'"
      using True r by (subst aesKey_outer.simps) simp
    moreover have "length (aesKey_outer key k' i') = length k'"
      using "1.IH" [OF True r [symmetric]] .
    ultimately show ?thesis by simp
  qed
qed

lemma length_aesKey: "length (aesKey key) = 16"
  by (auto simp add: aesKey_def length_aesKey_outer copy_into_def keyLen_def AESKeyLen_def min_def)

lemma length_InvCipher:
  assumes "wf_schedule w"
  shows "length (InvCipher w inp) = 16"
  using assms by (simp add: InvCipher_def Let_def length_AddRoundKey length_InvSubBytes length_InvShiftRows wf_schedule_def)

lemma NewCipher_aesKey: "NewCipher (aesKey key) = Inr (KeyExpansion (aesKey key))"
  by (simp add: NewCipher_def length_aesKey)

lemma wf_schedule_aesKey: "wf_schedule (KeyExpansion (aesKey key))"
  by (simp add: wf_schedule_KeyExpansion length_aesKey)

lemma Encrypt_eq:
  assumes "plaintext \<noteq> []" and "key \<noteq> []"
  shows "Encrypt plaintext key =
           Inr (ecb_map (Cipher (KeyExpansion (aesKey key)))
                  (plaintext @ replicate (16 - length plaintext mod 16) (of_nat (16 - length plaintext mod 16))))"
proof -
  let ?w = "KeyExpansion (aesKey key)"
  let ?n = "16 - length plaintext mod 16"
  let ?p = "plaintext @ replicate ?n (of_nat ?n :: byte)"
  have lp: "16 dvd length ?p"
    by (simp add: dvd_eq_mod_eq_0) presburger
  have f: "\<And>b. length b = 16 \<Longrightarrow> length (block_Encrypt ?w b) = 16"
    by (simp add: block_Encrypt_def length_Cipher wf_schedule_aesKey)
  have "ecb_loop (block_Encrypt ?w) ?p (replicate (length ?p) 0) 0
          = Inr (take 0 (replicate (length ?p) 0) @ ecb_map (block_Encrypt ?w) (drop 0 ?p))"
    using lp by (intro ecb_loop_eq f) simp_all
  moreover have "block_Encrypt ?w = Cipher ?w"
    by (simp add: fun_eq_iff block_Encrypt_def)
  ultimately show ?thesis
    using assms
    by (simp add: Encrypt_def NewCipher_aesKey pkcs7Pad_BlockSize)
qed

lemma Decrypt_eq:
  assumes "ciphertext \<noteq> []" and "key \<noteq> []" and "16 dvd length ciphertext"
  shows "Decrypt ciphertext key =
           (case pkcs7Unpad (ecb_map (InvCipher (KeyExpansion (aesKey key))) ciphertext) of
              Inl err \<Rightarrow> Inl (ErrRemovePadding err)
            | Inr unpaddedText \<Rightarrow> Inr unpaddedText)"
proof -
  let ?w = "KeyExpansion (aesKey key)"
  have f: "\<And>b. length b = 16 \<Longrightarrow> length (block_Decrypt ?w b) = 16"
    by (simp add: block_Decrypt_def length_InvCipher wf_schedule_aesKey)
  have "ecb_loop (block_Decrypt ?w) ciphertext (replicate (length ciphertext) 0) 0
          = Inr (take 0 (replicate (length ciphertext) 0) @ ecb_map (block_Decrypt ?w) (drop 0 ciphertext))"
    using assms(3) by (intro ecb_loop_eq f) simp_all
  moreover have "block_Decrypt ?w = InvCipher ?w"
    by (simp add: fun_eq_iff block_Decrypt_def)
  ultimately show ?thesis
    using assms
    by (simp add: Decrypt_def NewCipher_aesKey BlockSize_def dvd_eq_mod_eq_0)
qed

lemma Decrypt_Encrypt:
  assumes "plaintext \<noteq> []" and "key \<noteq> []"
  shows "\<exists>ciphertext. Encrypt plaintext key = Inr ciphertext \<and> Decrypt ciphertext key = Inr plaintext"
proof -
  let ?w = "KeyExpansion (aesKey key)"
  let ?n = "16 - length plaintext mod 16"
  let ?p = "plaintext @ replicate ?n (of_nat ?n :: byte)"
  let ?c = "ecb_map (Cipher ?w) ?p"
  have wf: "wf_schedule ?w" by (rule wf_schedule_aesKey)
  have lp: "16 dvd length ?p"
    by (simp add: dvd_eq_mod_eq_0) presburger
  have lc: "length ?c = length ?p"
    using lp by (intro length_ecb_map length_Cipher wf)
  have ne: "?c \<noteq> []" using lc assms(1) by auto
  have inv: "ecb_map (InvCipher ?w) ?c = ?p"
    using lp by (intro ecb_map_inverse length_Cipher InvCipher_Cipher wf)
  have n: "1 \<le> ?n" "?n \<le> 255"
    by simp_all
  have dc: "16 dvd length ?c" using lc lp by (simp only:)
  have "Decrypt ?c key = (case pkcs7Unpad ?p of
              Inl err \<Rightarrow> Inl (ErrRemovePadding err)
            | Inr unpaddedText \<Rightarrow> Inr unpaddedText)"
    by (simp only: Decrypt_eq [OF ne assms(2) dc] inv)
  also have "\<dots> = Inr plaintext"
    by (simp only: pkcs7Unpad_padded [OF n] sum.case)
  finally have "Decrypt ?c key = Inr plaintext" .
  with Encrypt_eq [OF assms] show ?thesis by (simp del: of_nat_diff)
qed

section \<open>Key folding: the loops against the specification\<close>

lemma aesKey_inner_spec:
  assumes "i \<le> length key" and "j \<le> 16" and "j < 16 \<longrightarrow> i mod 16 = j"
  shows "aesKey_inner key k j i =
           (foldl (fold_step key) k [i..<min (i + (16 - j)) (length key)],
            min (i + (16 - j)) (length key))"
  using assms
proof (induction key k j i rule: aesKey_inner.induct)
  case (1 key k j i)
  let ?m = "min (i + (16 - j)) (length key)"
  show ?case
  proof (cases "j < keyLen \<and> i < length key")
    case False
    have r: "aesKey_inner key k j i = (k, i)"
      by (subst aesKey_inner.simps) (simp only: False if_False)
    from False "1.prems" have "?m = i"
      by (auto simp: keyLen_def AESKeyLen_def)
    then show ?thesis using r by simp
  next
    case True
    then have j: "j < 16" and i: "i < length key"
      by (simp_all add: keyLen_def AESKeyLen_def)
    with "1.prems" have ij: "i mod 16 = j" by simp
    have r: "aesKey_inner key k j i = aesKey_inner key (k[j := (k ! j) XOR (key ! i)]) (j + 1) (i + 1)"
      using True by (subst aesKey_inner.simps) simp
    have st: "k[j := (k ! j) XOR (key ! i)] = fold_step key k i"
      by (simp add: fold_step_def ij)
    have next_j: "j + 1 < 16 \<longrightarrow> (i + 1) mod 16 = j + 1"
      using ij by (auto simp: mod_Suc)
    have m: "min (i + 1 + (16 - (j + 1))) (length key) = ?m"
      using j by simp
    have lt: "i < ?m" using i j by simp
    have "aesKey_inner key (k[j := (k ! j) XOR (key ! i)]) (j + 1) (i + 1)
            = (foldl (fold_step key) (k[j := (k ! j) XOR (key ! i)])
                 [i + 1..<min (i + 1 + (16 - (j + 1))) (length key)],
               min (i + 1 + (16 - (j + 1))) (length key))"
      using i j next_j by (intro "1.IH" [OF True]) simp_all
    also have "\<dots> = (foldl (fold_step key) (fold_step key k i) [i + 1..<?m], ?m)"
      by (simp only: m st)
    also have "\<dots> = (foldl (fold_step key) k [i..<?m], ?m)"
    proof -
      have "[i..<?m] = i # [Suc i..<?m]" using lt by (rule upt_conv_Cons)
      then show ?thesis by (simp only: foldl_Cons Suc_eq_plus1)
    qed
    finally show ?thesis using r by simp
  qed
qed

lemma aesKey_outer_spec:
  assumes "i \<le> length key" and "i mod 16 = 0 \<or> i = length key"
  shows "aesKey_outer key k i = foldl (fold_step key) k [i..<length key]"
  using assms
proof (induction key k i rule: aesKey_outer.induct)
  case (1 key k i)
  show ?case
  proof (cases "i < length key")
    case False
    then show ?thesis by (subst aesKey_outer.simps) simp
  next
    case True
    with "1.prems" have i0: "i mod 16 = 0" by simp
    let ?m = "min (i + 16) (length key)"
    let ?k' = "foldl (fold_step key) k [i..<?m]"
    have inner: "aesKey_inner key k 0 i = (?k', ?m)"
      using aesKey_inner_spec [of i key 0 k] True i0 by simp
    have r: "aesKey_outer key k i = aesKey_outer key ?k' ?m"
      using True inner by (subst aesKey_outer.simps) simp
    have m1: "?m \<le> length key" by simp
    have m2: "?m mod 16 = 0 \<or> ?m = length key"
      using i0 by (auto simp: min_def)
    have "aesKey_outer key ?k' ?m = foldl (fold_step key) ?k' [?m..<length key]"
      by (rule "1.IH" [OF True inner [symmetric] m1 m2])
    also have "\<dots> = foldl (fold_step key) k ([i..<?m] @ [?m..<length key])"
      by simp
    also have "[i..<?m] @ [?m..<length key] = [i..<length key]"
    proof -
      have "i \<le> ?m" using True by simp
      then have "[i..<?m + (length key - ?m)] = [i..<?m] @ [?m..<?m + (length key - ?m)]"
        by (rule upt_add_eq_append)
      moreover have "?m + (length key - ?m) = length key" by simp
      ultimately show ?thesis by (simp only:)
    qed
    finally show ?thesis using r by simp
  qed
qed

lemma aesKey_eq_spec: "aesKey key = fold_key_spec key"
proof (cases "length key = 16")
  case True
  then show ?thesis
    by (simp add: aesKey_def fold_key_spec_def keyLen_def AESKeyLen_def)
next
  case False
  have c: "copy_into (replicate 16 0) key = take 16 key @ replicate (16 - length key) 0"
    by (simp add: copy_into_def)
  show ?thesis
  proof (cases "16 \<le> length key")
    case True
    then show ?thesis
      using False aesKey_outer_spec [of 16 key "copy_into (replicate 16 0) key"]
      by (simp add: aesKey_def fold_key_spec_def keyLen_def AESKeyLen_def c)
  next
    case short: False
    have "aesKey_outer key (copy_into (replicate 16 0) key) 16 = copy_into (replicate 16 0) key"
      using short by (subst aesKey_outer.simps) simp
    then show ?thesis
      using False short
      by (simp add: aesKey_def fold_key_spec_def keyLen_def AESKeyLen_def c)
  qed
qed

section \<open>Strings and hex text\<close>



lemma bytes_of_string_Nil: "bytes_of_string s = [] \<longleftrightarrow> s = []"
  by (simp add: bytes_of_string_def)

lemma length_bytes_of_string: "length (bytes_of_string s) = length s"
  by (simp add: bytes_of_string_def)











lemma hex_codes_all:
  "\<forall>n\<in>set ([48..<58] @ [97..<103] @ [65..<71]). is_hex_digit (char_of n)"
  by code_simp

lemma hex_digits_all:
  "\<forall>c\<in>set ''0123456789abcdefABCDEF''. fromHexChar c \<noteq> None"
  by code_simp

lemma fromHexChar_Some_iff: "fromHexChar c \<noteq> None \<longleftrightarrow> is_hex_digit c"
proof
  assume "fromHexChar c \<noteq> None"
  then have "(of_char c :: nat) \<in> {48..<58} \<union> {97..<103} \<union> {65..<71}"
    by (auto simp: fromHexChar_def Let_def split: if_splits)
  then have "(of_char c :: nat) \<in> set ([48..<58] @ [97..<103] @ [65..<71])"
    by (simp only: set_append set_upt Un_assoc)
  with hex_codes_all have "is_hex_digit (char_of (of_char c :: nat))" by blast
  then show "is_hex_digit c" by simp
next
  assume "is_hex_digit c"
  with hex_digits_all show "fromHexChar c \<noteq> None"
    unfolding is_hex_digit_def by blast
qed

lemma hex_DecodeString_ok_iff: "(\<exists>bs. hex_DecodeString s = Inr bs) \<longleftrightarrow> valid_hex s"
proof (induction s rule: hex_DecodeString.induct)
  case 1
  then show ?case by (simp add: valid_hex_def)
next
  case (2 p)
  then show ?case by (simp add: valid_hex_def split: option.splits)
next
  case (3 p q rest)
  have v: "valid_hex (p # q # rest) \<longleftrightarrow> is_hex_digit p \<and> is_hex_digit q \<and> valid_hex rest"
    by (simp add: valid_hex_def) blast
  show ?case
  proof (cases "fromHexChar p")
    case None
    then show ?thesis
      unfolding v using fromHexChar_Some_iff [of p] by simp
  next
    case a: (Some a)
    show ?thesis
    proof (cases "fromHexChar q")
      case None
      then show ?thesis
        unfolding v using a fromHexChar_Some_iff [of q] by simp
    next
      case b: (Some b)
      from a b fromHexChar_Some_iff [of p] fromHexChar_Some_iff [of q]
      have d: "is_hex_digit p" "is_hex_digit q" by simp_all
      show ?thesis
        unfolding v using "3.IH" [OF a b] a b d
        by (cases "hex_DecodeString rest") simp_all
    qed
  qed
qed


section \<open>The claims\<close>

text \<open>
  Claim C6. For every byte sequence \<open>data\<close>, the empty one and those whose length is a
  multiple of 16 included, padding with block size 16 appends \<open>padLen\<close> bytes of value
  \<open>padLen\<close>, where \<open>padLen = 16 - len(data) mod 16\<close> lies between 1 and 16, and unpadding
  the padded sequence succeeds and returns \<open>data\<close>. For the empty sequence the result of
  unpadding is the empty sequence.
\<close>

theorem pkcs7_pad_unpad_roundtrip:
  "\<exists>padLen padded. 1 \<le> padLen \<and> padLen \<le> 16
     \<and> padLen = 16 - length data mod 16
     \<and> pkcs7Pad data (int BlockSize) = Inr padded
     \<and> padded = data @ replicate padLen (of_nat padLen)
     \<and> length padded = length data + padLen
     \<and> pkcs7Unpad padded = Inr data"
proof -
  let ?n = "16 - length data mod 16"
  have lt: "length data mod 16 < 16" by simp
  have n: "1 \<le> ?n" "?n \<le> 16" "?n \<le> 255" using lt by simp_all
  from pkcs7Pad_BlockSize [of data] pkcs7Unpad_padded [OF n(1) n(3), of data] n
  show ?thesis by simp
qed

theorem pkcs7_pad_unpad_roundtrip_witness:
  "pkcs7Pad [] (int BlockSize) = Inr (replicate 16 16) \<and> pkcs7Unpad (replicate 16 16) = Inr []"
  using pkcs7_pad_unpad_roundtrip [of "[]"] by simp

text \<open>
  Claim C1. For every non-empty plaintext \<open>p\<close> and every non-empty key \<open>k\<close>, \<open>Encrypt p k\<close>
  succeeds, and \<open>Decrypt\<close> of its result under \<open>k\<close> succeeds and returns exactly \<open>p\<close>.
\<close>

theorem decrypt_encrypt_roundtrip:
  assumes "p \<noteq> []" and "k \<noteq> []"
  shows "\<exists>c. Encrypt p k = Inr c \<and> Decrypt c k = Inr p"
  using assms by (rule Decrypt_Encrypt)

theorem decrypt_encrypt_roundtrip_witness:
  "[0x48, 0x69] \<noteq> ([] :: bytes) \<and> [0x6b, 0x65, 0x79] \<noteq> ([] :: bytes)
     \<and> (\<exists>c. Encrypt [0x48, 0x69] [0x6b, 0x65, 0x79] = Inr c
             \<and> Decrypt c [0x6b, 0x65, 0x79] = Inr [0x48, 0x69])"
  using decrypt_encrypt_roundtrip [of "[0x48, 0x69]" "[0x6b, 0x65, 0x79]"] by simp

text \<open>
  Claim C5. For every non-empty plaintext \<open>p\<close> and non-empty key \<open>k\<close>, \<open>Encrypt p k\<close> succeeds
  and the length of the ciphertext is \<open>len(p)\<close> plus a padding of 1 to 16 bytes that brings
  it to the next multiple of 16: it is \<open>16 * (len(p) div 16 + 1)\<close>, the least multiple of
  16 above \<open>len(p)\<close>, hence positive, and \<open>len(p) + 16\<close> when \<open>len(p)\<close> is already a
  multiple of 16.
\<close>

theorem encrypt_ciphertext_length:
  assumes "p \<noteq> []" and "k \<noteq> []"
  shows "\<exists>c. Encrypt p k = Inr c
           \<and> length c = length p + (16 - length p mod 16)
           \<and> length c = 16 * (length p div 16 + 1)
           \<and> length p < length c \<and> length c \<le> length p + 16
           \<and> 0 < length c \<and> 16 dvd length c
           \<and> (\<forall>m. 16 dvd m \<and> length p < m \<longrightarrow> length c \<le> m)
           \<and> (16 dvd length p \<longrightarrow> length c = length p + 16)"
proof -
  let ?w = "KeyExpansion (aesKey k)"
  let ?n = "16 - length p mod 16"
  let ?p = "p @ replicate ?n (of_nat ?n :: byte)"
  let ?c = "ecb_map (Cipher ?w) ?p"
  have lp: "16 dvd length ?p"
    by (simp add: dvd_eq_mod_eq_0) presburger
  have "length ?c = length ?p"
    using lp by (intro length_ecb_map length_Cipher wf_schedule_aesKey)
  then have lc: "length ?c = length p + ?n" by simp
  have e: "Encrypt p k = Inr ?c" using assms by (rule Encrypt_eq)
  define c where "c = ?c"
  have lc': "length c = length p + (16 - length p mod 16)"
    using lc by (simp only: c_def)
  have "Encrypt p k = Inr c" using e by (simp only: c_def)
  moreover have "length c = 16 * (length p div 16 + 1)"
    unfolding lc' by presburger
  moreover have "length p < length c" "length c \<le> length p + 16" "0 < length c"
    unfolding lc' by simp_all
  moreover have "16 dvd length c"
    unfolding lc' by presburger
  moreover have "16 dvd length p \<longrightarrow> length c = length p + 16"
    unfolding lc' by (simp add: dvd_eq_mod_eq_0)
  moreover have "\<forall>m. 16 dvd m \<and> length p < m \<longrightarrow> length c \<le> m"
    unfolding lc' by presburger
  ultimately show ?thesis
    using lc' by blast
qed

theorem encrypt_ciphertext_length_witness:
  "[0x48, 0x69] \<noteq> ([] :: bytes) \<and> [0x6b] \<noteq> ([] :: bytes)
     \<and> (\<exists>c. Encrypt [0x48, 0x69] [0x6b] = Inr c \<and> length c = 16)"
  using encrypt_ciphertext_length [of "[0x48, 0x69]" "[0x6b]"] by auto

lemma pkcs7Unpad_trailer:
  assumes ne: "data \<noteq> []"
      and n: "unat (last data) = n" "1 \<le> n" "n \<le> length data"
      and tr: "\<forall>i. length data - n \<le> i \<and> i < length data \<longrightarrow> data ! i = last data"
  shows "pkcs7Unpad data = Inr (take (length data - n) data)"
proof -
  have l: "data ! (length data - 1) = last data"
    using ne by (simp add: last_conv_nth)
  have b: "of_nat n = last data"
    using n(1) by (metis of_nat_unat ucast_id)
  have "unpad_verify data n (length data - n)"
    unfolding unpad_verify_iff b using tr by blast
  then show ?thesis
    unfolding pkcs7Unpad_def Let_def l n(1) using ne n(2,3) by simp
qed

lemma Decrypt_raw_blocks:
  assumes "k \<noteq> []" and "raw \<noteq> []" and "16 dvd length raw"
  shows "\<exists>c. length c = length raw \<and>
           Decrypt c k = (case pkcs7Unpad raw of Inl err \<Rightarrow> Inl (ErrRemovePadding err)
                          | Inr unpaddedText \<Rightarrow> Inr unpaddedText)"
proof -
  let ?w = "KeyExpansion (aesKey k)"
  let ?c = "ecb_map (Cipher ?w) raw"
  have wf: "wf_schedule ?w" by (rule wf_schedule_aesKey)
  have lc: "length ?c = length raw"
    using assms(3) by (intro length_ecb_map length_Cipher wf)
  have ne: "?c \<noteq> []" using lc assms(2) by auto
  have dc: "16 dvd length ?c" using lc assms(3) by (simp only:)
  have inv: "ecb_map (InvCipher ?w) ?c = raw"
    using assms(3) by (intro ecb_map_inverse length_Cipher InvCipher_Cipher wf)
  have "Decrypt ?c k = (case pkcs7Unpad raw of Inl err \<Rightarrow> Inl (ErrRemovePadding err)
                          | Inr unpaddedText \<Rightarrow> Inr unpaddedText)"
    by (simp only: Decrypt_eq [OF ne assms(1) dc] inv)
  with lc show ?thesis by blast
qed

text \<open>
  Claim C10. \<open>pkcs7Unpad\<close> does not bound the pad length by the block size. For every
  non-empty \<open>data\<close> whose last byte has value \<open>n\<close> with \<open>1 \<le> n \<le> len(data)\<close> and whose last
  \<open>n\<close> bytes all equal \<open>n\<close>, it succeeds and removes all \<open>n\<close> trailing bytes, also when
  \<open>n > 16\<close>: 32 bytes of value \<open>0x20\<close> unpad to the empty sequence. So for every non-empty
  key there is a ciphertext of 32 bytes that \<open>Decrypt\<close> accepts and whose plaintext is
  empty, shorter than \<open>len(ciphertext) - 16\<close>.
\<close>

theorem pkcs7Unpad_pad_length_unbounded:
  "(data \<noteq> [] \<and> unat (last data) = n \<and> 1 \<le> n \<and> n \<le> length data
      \<and> (\<forall>i. length data - n \<le> i \<and> i < length data \<longrightarrow> data ! i = last data)
      \<longrightarrow> pkcs7Unpad data = Inr (take (length data - n) data))
   \<and> pkcs7Unpad (replicate 32 0x20) = Inr []
   \<and> (k \<noteq> [] \<longrightarrow> (\<exists>c. length c = 32 \<and> Decrypt c k = Inr []
                          \<and> length ([] :: bytes) < length c - 16))"
proof (intro conjI impI)
  assume "data \<noteq> [] \<and> unat (last data) = n \<and> 1 \<le> n \<and> n \<le> length data
      \<and> (\<forall>i. length data - n \<le> i \<and> i < length data \<longrightarrow> data ! i = last data)"
  then show "pkcs7Unpad data = Inr (take (length data - n) data)"
    by (intro pkcs7Unpad_trailer) simp_all
next
  show u: "pkcs7Unpad (replicate 32 0x20) = Inr []"
    using pkcs7Unpad_padded [of 32 "[]"] by simp
  assume "k \<noteq> []"
  then have "\<exists>c. length c = length (replicate 32 (0x20 :: byte)) \<and>
           Decrypt c k = (case pkcs7Unpad (replicate 32 0x20) of Inl err \<Rightarrow> Inl (ErrRemovePadding err)
                          | Inr unpaddedText \<Rightarrow> Inr unpaddedText)"
    by (intro Decrypt_raw_blocks) simp_all
  then show "\<exists>c. length c = 32 \<and> Decrypt c k = Inr [] \<and> length ([] :: bytes) < length c - 16"
    unfolding u by auto
qed

theorem pkcs7Unpad_pad_length_unbounded_witness:
  "pkcs7Unpad (replicate 20 0x14) = Inr []
   \<and> (\<exists>c. length c = 32 \<and> Decrypt c [0x6b] = Inr [])"
proof -
  have "(replicate 20 (0x14 :: byte) \<noteq> [] \<and> unat (last (replicate 20 (0x14 :: byte))) = 20
      \<and> 1 \<le> (20 :: nat) \<and> 20 \<le> length (replicate 20 (0x14 :: byte))
      \<and> (\<forall>i. length (replicate 20 (0x14 :: byte)) - 20 \<le> i \<and> i < length (replicate 20 (0x14 :: byte))
            \<longrightarrow> replicate 20 (0x14 :: byte) ! i = last (replicate 20 (0x14 :: byte))))"
    by simp
  with pkcs7Unpad_pad_length_unbounded [of "replicate 20 0x14" 20 "[0x6b]"]
  show ?thesis by auto
qed

text \<open>
  Claim C4. A key of exactly 16 bytes is returned unchanged by \<open>aesKey\<close>. For any other
  key the result is the zero-filled 16-byte buffer that received the first up-to-16 key
  bytes, after every key byte at a position \<open>i \<ge> 16\<close> has been XOR-ed into buffer position
  \<open>i mod 16\<close>, in the order of the positions. In both cases the result has exactly 16
  bytes.
\<close>

theorem aesKey_folds_key:
  "(length key = 16 \<longrightarrow> aesKey key = key)
   \<and> (length key \<noteq> 16 \<longrightarrow>
        aesKey key = foldl (\<lambda>buf i. buf[i mod 16 := (buf ! (i mod 16)) XOR (key ! i)])
                       (take 16 key @ replicate (16 - length key) 0) [16..<length key])
   \<and> length (aesKey key) = 16"
proof -
  have "fold_step key = (\<lambda>buf i. buf[i mod 16 := (buf ! (i mod 16)) XOR (key ! i)])"
    by (simp add: fun_eq_iff fold_step_def)
  then show ?thesis
    using aesKey_eq_spec [of key] length_aesKey [of key]
    by (simp add: fold_key_spec_def)
qed

theorem aesKey_folds_key_witness:
  "length [1, 2, 3, 4, 5, 6, 7, 8, 9, 10, 11, 12, 13, 14, 15, 16, 0x11, 0x22 :: byte] \<noteq> 16
   \<and> aesKey [1, 2, 3, 4, 5, 6, 7, 8, 9, 10, 11, 12, 13, 14, 15, 16, 0x11, 0x22]
       = [0x10, 0x20, 3, 4, 5, 6, 7, 8, 9, 10, 11, 12, 13, 14, 15, 16]
   \<and> length [0x6b, 0x65, 0x79 :: byte] \<noteq> 16
   \<and> aesKey [0x6b, 0x65, 0x79] = [0x6b, 0x65, 0x79, 0, 0, 0, 0, 0, 0, 0, 0, 0, 0, 0, 0, 0]"
proof -
  have u: "[16..<18] = [16, 17 :: nat]" "[16..<3] = ([] :: nat list)"
    by (simp_all add: upt_rec)
  have r: "replicate 13 (0 :: byte) = [0, 0, 0, 0, 0, 0, 0, 0, 0, 0, 0, 0, 0]"
    by (simp add: numeral_eq_Suc)
  show ?thesis
    using aesKey_folds_key [of "[1, 2, 3, 4, 5, 6, 7, 8, 9, 10, 11, 12, 13, 14, 15, 16, 0x11, 0x22]"]
          aesKey_folds_key [of "[0x6b, 0x65, 0x79]"]
    by (simp add: u r)
qed

lemma Encrypt_cases:
  "Encrypt p k = Inl ErrPlaintextEmpty \<or> Encrypt p k = Inl ErrKeyEmpty \<or> (\<exists>c. Encrypt p k = Inr c)"
proof (cases "p = [] \<or> k = []")
  case True
  then show ?thesis by (auto simp: Encrypt_def)
next
  case False
  then show ?thesis using Encrypt_eq [of p k] by simp
qed

lemma Decrypt_cases:
  "Decrypt c k = Inl ErrCiphertextEmpty \<or> Decrypt c k = Inl ErrKeyEmpty
   \<or> Decrypt c k = Inl ErrCiphertextLength
   \<or> (\<exists>e. Decrypt c k = Inl (ErrRemovePadding e)) \<or> (\<exists>p. Decrypt c k = Inr p)"
proof (cases "c = [] \<or> k = [] \<or> length c mod 16 \<noteq> 0")
  case True
  then show ?thesis by (auto simp: Decrypt_def BlockSize_def)
next
  case False
  then have "c \<noteq> []" "k \<noteq> []" "16 dvd length c" by (simp_all add: dvd_eq_mod_eq_0)
  from Decrypt_eq [OF this] show ?thesis
    by (cases "pkcs7Unpad (ecb_map (InvCipher (KeyExpansion (aesKey k))) c)") simp_all
qed

lemma pkcs7Unpad_error:
  "pkcs7Unpad d = Inl e \<Longrightarrow> e = ErrDataEmpty \<or> e = ErrInvalidPadding"
  by (auto simp: pkcs7Unpad_def Let_def split: if_splits)

text \<open>
  Claim C7. \<open>Encrypt\<close> fails with \<open>InvalidInput\<close> on an empty plaintext and on an empty key.
  \<open>Decrypt\<close> fails with \<open>InvalidInput\<close> on an empty ciphertext, on an empty key, and on a
  ciphertext whose length is not a multiple of 16. \<open>DecryptString\<close> fails with
  \<open>InvalidEncoding\<close> when its input is not valid hex, that is, has odd length or holds a
  character that is not a hexadecimal digit.
\<close>

theorem rejected_inputs:
  "fails_with (Encrypt [] k) InvalidInput
   \<and> fails_with (Encrypt p []) InvalidInput
   \<and> fails_with (Decrypt [] k) InvalidInput
   \<and> fails_with (Decrypt c []) InvalidInput
   \<and> (length c mod 16 \<noteq> 0 \<longrightarrow> fails_with (Decrypt c k) InvalidInput)
   \<and> (\<not> valid_hex s \<longrightarrow> fails_with (DecryptString s key) InvalidEncoding)"
proof (intro conjI impI)
  show "fails_with (Encrypt [] k) InvalidInput"
    by (simp add: fails_with_def Encrypt_def)
  show "fails_with (Encrypt p []) InvalidInput"
    by (simp add: fails_with_def Encrypt_def)
  show "fails_with (Decrypt [] k) InvalidInput"
    by (simp add: fails_with_def Decrypt_def)
  show "fails_with (Decrypt c []) InvalidInput"
    by (simp add: fails_with_def Decrypt_def)
  show "fails_with (Decrypt c k) InvalidInput" if "length c mod 16 \<noteq> 0"
    using that by (simp add: fails_with_def Decrypt_def BlockSize_def)
  show "fails_with (DecryptString s key) InvalidEncoding" if "\<not> valid_hex s"
  proof -
    from that hex_DecodeString_ok_iff [of s] obtain e where "hex_DecodeString s = Inl e"
      by (cases "hex_DecodeString s") auto
    then show ?thesis
      by (simp add: fails_with_def DecryptString_def)
  qed
qed

theorem rejected_inputs_witness:
  "length [1, 2, 3 :: byte] mod 16 \<noteq> 0 \<and> \<not> valid_hex ''abc'' \<and> \<not> valid_hex ''zz''
   \<and> fails_with (Decrypt [1, 2, 3] [0x6b]) InvalidInput
   \<and> fails_with (DecryptString ''abc'' ''key'') InvalidEncoding
   \<and> fails_with (DecryptString ''zz'' ''key'') InvalidEncoding"
proof -
  have v: "\<not> valid_hex ''abc''" "\<not> valid_hex ''zz''"
    by (simp_all add: valid_hex_def is_hex_digit_def)
  show ?thesis
    using rejected_inputs [of "[0x6b]" "[]" "[1, 2, 3]" "''abc''" "''key''"]
          rejected_inputs [of "[0x6b]" "[]" "[1, 2, 3]" "''zz''" "''key''"] v
    by simp
qed

lemma DeriveUserKey_colon: "CHR '':'' \<in> set (DeriveUserKey ukd uid)"
  by (simp add: DeriveUserKey_def Let_def)

lemma DeriveUserKey_nonempty: "DeriveUserKey ukd uid \<noteq> []"
  by (simp add: DeriveUserKey_def Let_def)

lemma Encrypt_no_cipher_error: "Encrypt p k \<noteq> Inl (ErrCreateCipher e)"
  using Encrypt_cases [of p k] by auto

lemma Decrypt_no_cipher_error: "Decrypt c k \<noteq> Inl (ErrCreateCipher e)"
  using Decrypt_cases [of c k] by auto

lemma Encrypt_no_key_error:
  assumes "k \<noteq> []"
  shows "Encrypt p k \<noteq> Inl ErrKeyEmpty"
proof (cases "p = []")
  case True
  then show ?thesis by (simp add: Encrypt_def)
next
  case False
  then show ?thesis using Encrypt_eq [OF False assms] by simp
qed

lemma Decrypt_no_key_error:
  assumes "k \<noteq> []"
  shows "Decrypt c k \<noteq> Inl ErrKeyEmpty"
proof (cases "c = [] \<or> length c mod 16 \<noteq> 0")
  case True
  then show ?thesis using assms by (auto simp: Decrypt_def BlockSize_def)
next
  case False
  then have "c \<noteq> []" "16 dvd length c" by (simp_all add: dvd_eq_mod_eq_0)
  from Decrypt_eq [OF this(1) assms this(2)] show ?thesis
    by (cases "pkcs7Unpad (ecb_map (InvCipher (KeyExpansion (aesKey k))) c)") simp_all
qed

lemma EncryptString_ok:
  assumes "p \<noteq> []" and "k \<noteq> []"
  shows "\<exists>c. Encrypt (bytes_of_string p) (bytes_of_string k) = Inr c
           \<and> EncryptString p k = Inr (hex_EncodeToString c)
           \<and> Decrypt c (bytes_of_string k) = Inr (bytes_of_string p)"
proof -
  have "bytes_of_string p \<noteq> []" "bytes_of_string k \<noteq> []"
    using assms by (simp_all add: bytes_of_string_Nil)
  from Decrypt_Encrypt [OF this] obtain c
    where "Encrypt (bytes_of_string p) (bytes_of_string k) = Inr c"
      and "Decrypt c (bytes_of_string k) = Inr (bytes_of_string p)" by blast
  then show ?thesis by (simp add: EncryptString_def)
qed

text \<open>
  Claim C9. For every base key and master salt, the empty strings included, and every
  identity token, the derived key contains the separator \<open>:\<close> and so is not empty, and
  the processed key handed to \<open>aes.NewCipher\<close> has exactly 16 bytes, for any key. Hence
  \<open>EncryptForUser\<close> and \<open>DecryptForUser\<close> never fail with the empty-key error, \<open>Encrypt\<close>
  and \<open>Decrypt\<close> never fail with the cipher-construction error, and \<open>EncryptForUser\<close>
  succeeds on every non-empty plaintext.
\<close>

theorem derived_key_always_accepted:
  "DeriveUserKey ukd uid \<noteq> [] \<and> CHR '':'' \<in> set (DeriveUserKey ukd uid)
   \<and> length (aesKey key) = 16
   \<and> (\<exists>b. NewCipher (aesKey key) = Inr b)
   \<and> EncryptForUser ukd p uid \<noteq> Inl ErrKeyEmpty
   \<and> DecryptForUser ukd h uid \<noteq> Inl ErrKeyEmpty
   \<and> Encrypt pb key \<noteq> Inl (ErrCreateCipher e)
   \<and> Decrypt cb key \<noteq> Inl (ErrCreateCipher e)
   \<and> EncryptForUser ukd p uid \<noteq> Inl (ErrCreateCipher e)
   \<and> DecryptForUser ukd h uid \<noteq> Inl (ErrCreateCipher e)
   \<and> (p \<noteq> [] \<longrightarrow> (\<exists>hx. EncryptForUser ukd p uid = Inr hx))"
proof -
  let ?k = "DeriveUserKey ukd uid"
  have kne: "bytes_of_string ?k \<noteq> []"
    by (simp add: bytes_of_string_Nil DeriveUserKey_nonempty)
  have e1: "EncryptForUser ukd p uid \<noteq> Inl ErrKeyEmpty"
    using Encrypt_no_key_error [OF kne, of "bytes_of_string p"]
    by (auto simp: EncryptForUser_def EncryptString_def split: sum.splits)
  have e2: "EncryptForUser ukd p uid \<noteq> Inl (ErrCreateCipher e)"
    using Encrypt_no_cipher_error [of "bytes_of_string p" "bytes_of_string ?k" e]
    by (auto simp: EncryptForUser_def EncryptString_def split: sum.splits)
  have d1: "DecryptForUser ukd h uid \<noteq> Inl ErrKeyEmpty"
  proof (cases "hex_DecodeString h")
    case (Inl err)
    then show ?thesis by (simp add: DecryptForUser_def DecryptString_def)
  next
    case (Inr c)
    have "Decrypt c (bytes_of_string ?k) \<noteq> Inl ErrKeyEmpty"
      using kne by (rule Decrypt_no_key_error)
    then show ?thesis
      using Inr by (auto simp: DecryptForUser_def DecryptString_def split: sum.splits)
  qed
  have d2: "DecryptForUser ukd h uid \<noteq> Inl (ErrCreateCipher e)"
  proof (cases "hex_DecodeString h")
    case (Inl err)
    then show ?thesis by (simp add: DecryptForUser_def DecryptString_def)
  next
    case (Inr c)
    then show ?thesis
      using Decrypt_no_cipher_error [of c "bytes_of_string ?k" e]
      by (auto simp: DecryptForUser_def DecryptString_def split: sum.splits)
  qed
  have ok: "p \<noteq> [] \<longrightarrow> (\<exists>hx. EncryptForUser ukd p uid = Inr hx)"
    using EncryptString_ok [of p ?k] DeriveUserKey_nonempty [of ukd uid]
    by (auto simp: EncryptForUser_def)
  show ?thesis
    using DeriveUserKey_nonempty [of ukd uid] DeriveUserKey_colon [of ukd uid]
      length_aesKey [of key] NewCipher_aesKey [of key] e1 e2 d1 d2 ok
      Encrypt_no_cipher_error [of pb key e] Decrypt_no_cipher_error [of cb key e]
    by simp
qed

theorem derived_key_always_accepted_witness:
  "''x'' \<noteq> [] \<and> (\<exists>hx. EncryptForUser \<lparr>baseKey = [], masterSalt = []\<rparr> ''x'' (IdString []) = Inr hx)
   \<and> DeriveUserKey \<lparr>baseKey = [], masterSalt = []\<rparr> (IdString []) \<noteq> []"
  using derived_key_always_accepted [of "\<lparr>baseKey = [], masterSalt = []\<rparr>" "IdString []" "[]" "''x''" "[]" "[]" ErrKeyEmpty "[]"]
  by simp

lemma digit_char_all:
  "\<forall>d\<in>set [0..<10]. is_digit (digit_char d) \<and> (of_char (digit_char d) :: nat) = 48 + d"
  by code_simp

lemma digit_char_props:
  assumes "d < 10"
  shows "is_digit (digit_char d)" and "(of_char (digit_char d) :: nat) = 48 + d"
  using digit_char_all assms by simp_all

lemma FormatUint_small: "n < 10 \<Longrightarrow> FormatUint n = [digit_char n]"
  by (subst FormatUint.simps) simp

lemma FormatUint_large:
  "\<not> n < 10 \<Longrightarrow> FormatUint n = FormatUint (n div 10) @ [digit_char (n mod 10)]"
  by (subst FormatUint.simps) simp

lemma FormatUint_digits: "list_all is_digit (FormatUint n) \<and> FormatUint n \<noteq> []"
proof (induction n rule: FormatUint.induct)
  case (1 n)
  show ?case
  proof (cases "n < 10")
    case True
    then show ?thesis by (simp add: FormatUint_small digit_char_props)
  next
    case False
    have "n mod 10 < 10" by simp
    then have "is_digit (digit_char (n mod 10))" by (rule digit_char_props)
    with "1.IH" [OF False] show ?thesis
      by (simp add: FormatUint_large [OF False])
  qed
qed

lemma dec_value_snoc: "dec_value (s @ [c]) = 10 * dec_value s + (of_char c - 48)"
  by (simp add: dec_value_def)

lemma dec_value_FormatUint: "dec_value (FormatUint n) = n"
proof (induction n rule: FormatUint.induct)
  case (1 n)
  show ?case
  proof (cases "n < 10")
    case True
    then show ?thesis
      by (simp add: FormatUint_small dec_value_def digit_char_props)
  next
    case False
    have "n mod 10 < 10" by simp
    then have "(of_char (digit_char (n mod 10)) :: nat) = 48 + n mod 10"
      by (rule digit_char_props)
    with "1.IH" [OF False] show ?thesis
      by (simp add: FormatUint_large [OF False] dec_value_snoc)
  qed
qed

lemma FormatUint_no_sign: "hd (FormatUint n) \<noteq> CHR ''-''"
proof -
  from FormatUint_digits [of n] have "is_digit (hd (FormatUint n))"
    by (cases "FormatUint n") simp_all
  then show ?thesis by (auto simp: is_digit_def)
qed

lemma FormatUint_42: "FormatUint 42 = ''42''"
  by code_simp

text \<open>
  Claim C8. \<open>DeriveUserKey\<close> returns the base key, the text of the identity token, the
  separator \<open>:\<close> and the master salt, concatenated. An unsigned integer is rendered by
  its decimal digits alone: the rendering is a non-empty string of digits whose decimal
  value is the integer. A signed integer is rendered in the same way, after a leading
  \<open>-\<close> exactly when it is negative. A string is taken as it is, and any other value
  by its generic rendering. With base \<open>BASE\<close>, salt \<open>SALT\<close> and the unsigned identity 42
  the result is \<open>BASE42:SALT\<close>. The result is a function of the base key, the salt and
  the identity token alone.
\<close>

theorem derive_user_key_text:
  "DeriveUserKey (NewUserKeyDeriver b s) (IdUint u) = b @ FormatUint (unat u) @ '':'' @ s
   \<and> DeriveUserKey (NewUserKeyDeriver b s) (IdUint64 u) = b @ FormatUint (unat u) @ '':'' @ s
   \<and> DeriveUserKey (NewUserKeyDeriver b s) (IdInt v) = b @ FormatInt (sint v) @ '':'' @ s
   \<and> DeriveUserKey (NewUserKeyDeriver b s) (IdInt64 v) = b @ FormatInt (sint v) @ '':'' @ s
   \<and> DeriveUserKey (NewUserKeyDeriver b s) (IdString t) = b @ t @ '':'' @ s
   \<and> DeriveUserKey (NewUserKeyDeriver b s) (IdOther t) = b @ t @ '':'' @ s
   \<and> list_all is_digit (FormatUint n) \<and> FormatUint n \<noteq> [] \<and> dec_value (FormatUint n) = n
   \<and> (i < 0 \<longrightarrow> FormatInt i = CHR ''-'' # FormatUint (nat (- i)))
   \<and> (0 \<le> i \<longrightarrow> FormatInt i = FormatUint (nat i))
   \<and> (hd (FormatInt i) = CHR ''-'' \<longleftrightarrow> i < 0)
   \<and> DeriveUserKey (NewUserKeyDeriver ''BASE'' ''SALT'') (IdUint 42) = ''BASE42:SALT''"
proof -
  have ex: "DeriveUserKey (NewUserKeyDeriver ''BASE'' ''SALT'') (IdUint 42) = ''BASE42:SALT''"
    by (simp add: DeriveUserKey_def NewUserKeyDeriver_def FormatUint_42)
  have sign: "hd (FormatInt i) = CHR ''-'' \<longleftrightarrow> i < 0"
    using FormatUint_no_sign [of "nat i"] by (simp add: FormatInt_def)
  show ?thesis
    using FormatUint_digits [of n] dec_value_FormatUint [of n] ex sign
    by (simp add: DeriveUserKey_def NewUserKeyDeriver_def FormatInt_def)
qed

theorem derive_user_key_text_witness:
  "(-7 :: int) < 0 \<and> FormatInt (-7) = ''-7'' \<and> (0 :: int) \<le> 42 \<and> FormatInt 42 = ''42''
   \<and> DeriveUserKey (NewUserKeyDeriver ''BASE'' ''SALT'') (IdInt (-7)) = ''BASE-7:SALT''"
proof -
  have "FormatUint 7 = ''7''" by code_simp
  moreover have "sint (- 7 :: 64 word) = - 7" by simp
  ultimately show ?thesis
    using derive_user_key_text [of "''BASE''" "''SALT''" 0 "- 7" "[]" 0 "- 7"]
          derive_user_key_text [of "''BASE''" "''SALT''" 0 "- 7" "[]" 0 42]
    by (simp add: FormatUint_42)
qed










end
